theory Spec2Isabelle
  imports Complex_Main "HOL-Library.Char_ord" "HOL-Library.List_Lexorder"
begin

section \<open>IOI scoring for SPOJ: the ranking program of \<^verbatim>\<open>ioi_judge.cpp\<close>\<close>

text \<open>
  A shallow embedding of \<^verbatim>\<open>src/ioi_judge.cpp\<close>. Conventions of the embedding:
  \<^item> a C++ \<^verbatim>\<open>struct\<close> is a record; the fields of \<^verbatim>\<open>Problem\<close>, \<^verbatim>\<open>User\<close> and
    \<^verbatim>\<open>Submission\<close> carry the prefixes \<open>p_\<close>, \<open>u_\<close> and \<open>s_\<close> (several structs share
    field names such as \<^verbatim>\<open>id\<close>, \<^verbatim>\<open>score\<close> and \<^verbatim>\<open>time\<close>); \<^verbatim>\<open>UserProblem\<close> and
    \<^verbatim>\<open>Result\<close> keep the names of the source;
  \<^item> \<^verbatim>\<open>double\<close> is modelled by \<open>real\<close>: comparisons, differences, products and sums
    are the exact ones, rounding is not modelled;
  \<^item> \<^verbatim>\<open>int\<close> is modelled by \<open>int\<close>. The counters of one series are bounded by the
    \<^verbatim>\<open>int\<close> loop bound \<^verbatim>\<open>subm_n\<close>, and the difference of two non-negative timestamps is
    in range. The arithmetic on \<^verbatim>\<open>penalty\<close> can leave the range of a 32-bit \<^verbatim>\<open>int\<close>: there
    the wrap-around of the two's complement arithmetic of the compiled program is
    written out (\<open>int32\<close>; the C++ standard leaves signed overflow undefined);
  \<^item> a \<^verbatim>\<open>std::map\<close> that the program only indexes is a partial function; a
    \<^verbatim>\<open>std::map\<close> that the program iterates is an association list kept in key order,
    the order in which \<^verbatim>\<open>std::map\<close> iterates;
  \<^item> the global variables of the program are the fields of the record \<open>globals\<close>, passed
    and returned explicitly;
  \<^item> reading a \<^verbatim>\<open>std::vector\<close> out of range is undefined behaviour: the functions that
    index \<^verbatim>\<open>problems\<close> return \<open>None\<close> there;
  \<^item> the output is the data that the program prints (ranks, users, cells, totals), not
    its text: the HTML around the values and the two-digit formatting are not modelled.
\<close>

subsection \<open>Constants\<close>

definition EPS :: real where
  "EPS = 1 / 1000000000"

definition INCORRECT_SUBMISSION_PENALTY :: int where
  "INCORRECT_SUBMISSION_PENALTY = 10"

text \<open>The value that a 32-bit \<^verbatim>\<open>int\<close> holds after an operation whose exact result is \<open>x\<close>:
  \<open>x\<close> itself between \<open>-2\<^sup>3\<^sup>1\<close> and \<open>2\<^sup>3\<^sup>1 - 1\<close>, and \<open>x\<close> wrapped around modulo \<open>2\<^sup>3\<^sup>2\<close> outside.\<close>

definition int32 :: "int \<Rightarrow> int" where
  "int32 x = (x + 2147483648) mod 4294967296 - 2147483648"

text \<open>The macros \<^verbatim>\<open>UNSOLVED\<close> (0), \<^verbatim>\<open>FULLY_SOLVED\<close> (1) and \<^verbatim>\<open>PARTIALLY_SOLVED\<close> (2) are the
  only values ever stored in \<^verbatim>\<open>UserProblem::solved\<close>.\<close>

datatype solved_state = UNSOLVED | FULLY_SOLVED | PARTIALLY_SOLVED

subsection \<open>Data model\<close>

record Problem =
  p_id :: int
  p_timelimit :: int
  p_opt :: int
  p_pset :: string
  p_starttime :: int
  p_endtime :: int
  p_points :: real
  p_code :: string
  p_name :: string

record User =
  u_id :: int
  u_login :: string
  u_name :: string
  u_email_address :: string
  u_institution :: string
  u_info :: string

record UserProblem =
  solved :: solved_state
  score :: real
  tries :: int
  failed_tries :: int
  time :: int
  date :: int
  strdate :: string

type_synonym u_p_map = "int \<rightharpoonup> UserProblem"

record Result =
  userid :: int
  numsolved :: int
  last_solved :: int
  totalscore :: real
  penalty :: int
  prob :: u_p_map

record Submission =
  s_userid :: int
  s_problemid :: int
  s_timestamp :: int
  s_status :: int
  s_language :: int
  s_score :: real
  s_time :: real
  s_date :: string

text \<open>The default constructors. \<^verbatim>\<open>UserProblem()\<close> leaves \<^verbatim>\<open>date\<close> and \<^verbatim>\<open>Result()\<close> leaves
  \<^verbatim>\<open>userid\<close> uninitialised; the program assigns both before it reads them, the model
  starts them at 0.\<close>

definition UserProblem_init :: UserProblem where
  "UserProblem_init =
     \<lparr>solved = UNSOLVED, score = 0, tries = 0, failed_tries = 0, time = 0, date = 0,
      strdate = []\<rparr>"

definition Result_init :: Result where
  "Result_init =
     \<lparr>userid = 0, numsolved = 0, last_solved = 0, totalscore = 0, penalty = 0,
      prob = Map.empty\<rparr>"

definition User_init :: User where
  "User_init =
     \<lparr>u_id = 0, u_login = [], u_name = [], u_email_address = [], u_institution = [],
      u_info = []\<rparr>"

subsection \<open>The comparator \<^verbatim>\<open>Result::operator<\<close>\<close>

definition Result_less :: "Result \<Rightarrow> Result \<Rightarrow> bool" where
  "Result_less l r =
     (if \<bar>totalscore l - totalscore r\<bar> > EPS then totalscore l > totalscore r
      else if penalty l \<noteq> penalty r then penalty l < penalty r
      else if last_solved l \<noteq> last_solved r then last_solved l < last_solved r
      else if numsolved l \<noteq> numsolved r then numsolved l > numsolved r
      else userid l < userid r)"

text \<open>Two results tie on the score key when the comparator's first test fails, and are
  incomparable when neither is less than the other.\<close>

definition score_tied :: "Result \<Rightarrow> Result \<Rightarrow> bool" where
  "score_tied l r = (\<not> \<bar>totalscore l - totalscore r\<bar> > EPS)"

definition incomparable :: "Result \<Rightarrow> Result \<Rightarrow> bool" where
  "incomparable l r = (\<not> Result_less l r \<and> \<not> Result_less r l)"

definition eps_transitive_on :: "Result set \<Rightarrow> bool" where
  "eps_transitive_on S =
     (\<forall>x\<in>S. \<forall>y\<in>S. \<forall>z\<in>S. score_tied x y \<and> score_tied y z \<longrightarrow> score_tied x z)"

subsection \<open>Maps and the global variables\<close>

text \<open>Insertion into a \<^verbatim>\<open>std::map\<close> that the program iterates: the association list
  stays in key order, and a key that is present has its value replaced. Lookup is
  \<open>map_of\<close>.\<close>

fun cmap_upd :: "'k::linorder \<Rightarrow> 'v \<Rightarrow> ('k \<times> 'v) list \<Rightarrow> ('k \<times> 'v) list" where
  "cmap_upd k v [] = [(k, v)]"
| "cmap_upd k v ((k', v') # m) =
     (if k < k' then (k, v) # (k', v') # m
      else if k = k' then (k, v) # m
      else (k', v') # cmap_upd k v m)"

type_synonym ur_map = "(int \<times> Result) list"
type_synonym pur_map = "string \<rightharpoonup> ur_map"
type_synonym ii_map = "int \<rightharpoonup> nat"
type_synonym pset_map = "(string \<times> nat list) list"
type_synonym u_map = "int \<rightharpoonup> User"

record globals =
  problems :: "Problem list"
  prob_id2idx :: ii_map
  problem_sets :: pset_map
  users :: u_map
  results :: pur_map

definition globals_init :: globals where
  "globals_init =
     \<lparr>problems = [], prob_id2idx = Map.empty, problem_sets = [], users = Map.empty,
      results = Map.empty\<rparr>"

text \<open>\<^verbatim>\<open>operator[]\<close> of \<^verbatim>\<open>ii_map\<close> and of \<^verbatim>\<open>u_map\<close>: a key that is absent is inserted
  with a value-initialised element (index 0, \<^verbatim>\<open>User()\<close>), which is returned.\<close>

definition ii_map_index :: "ii_map \<Rightarrow> int \<Rightarrow> nat \<times> ii_map" where
  "ii_map_index m k = (case m k of None \<Rightarrow> (0, m(k \<mapsto> 0)) | Some i \<Rightarrow> (i, m))"

definition u_map_index :: "u_map \<Rightarrow> int \<Rightarrow> User \<times> u_map" where
  "u_map_index m k =
     (case m k of None \<Rightarrow> (User_init, m(k \<mapsto> User_init)) | Some u \<Rightarrow> (u, m))"

subsection \<open>The constructors that read the input\<close>

text \<open>The argument of \<open>Submission_ctor\<close> holds the fields as \<^verbatim>\<open>fscanf\<close> and
  \<^verbatim>\<open>get_trimmed_line\<close> read them; the constructor normalises a score within \<open>EPS\<close> of 100.\<close>

definition Submission_ctor :: "Submission \<Rightarrow> Submission" where
  "Submission_ctor raw =
     (if \<bar>100 - s_score raw\<bar> < EPS then raw\<lparr>s_score := 100\<rparr> else raw)"

text \<open>The fields of a problem record as the constructor reads them. \<open>f_opt\<close> is the value
  that \<^verbatim>\<open>sscanf(buf, "%d", &opt)\<close> stores in \<^verbatim>\<open>opt\<close>; \<open>f_points\<close> is \<open>None\<close> when
  \<^verbatim>\<open>sscanf(buf, "%lf", &points)\<close> does not return 1.\<close>

record Problem_fields =
  f_id :: int
  f_timelimit :: int
  f_code :: string
  f_name :: string
  f_opt :: int
  f_pset :: string
  f_starttime :: int
  f_endtime :: int
  f_points :: "real option"

datatype ProblemParsingException =
  IllegalProblemCategory string int string string
| IllFormattedPointValue string int string string

fun ex_msg :: "ProblemParsingException \<Rightarrow> string" where
  "ex_msg (IllegalProblemCategory m i c n) = m"
| "ex_msg (IllFormattedPointValue m i c n) = m"

fun ex_id :: "ProblemParsingException \<Rightarrow> int" where
  "ex_id (IllegalProblemCategory m i c n) = i"
| "ex_id (IllFormattedPointValue m i c n) = i"

fun ex_code :: "ProblemParsingException \<Rightarrow> string" where
  "ex_code (IllegalProblemCategory m i c n) = c"
| "ex_code (IllFormattedPointValue m i c n) = c"

fun ex_name :: "ProblemParsingException \<Rightarrow> string" where
  "ex_name (IllegalProblemCategory m i c n) = n"
| "ex_name (IllFormattedPointValue m i c n) = n"

definition Problem_ctor :: "Problem_fields \<Rightarrow> ProblemParsingException + Problem" where
  "Problem_ctor f =
     (if f_opt f \<noteq> 0 then
        Inl (IllegalProblemCategory
          ''Challenge problems are not allowed in this scoring system''
          (f_id f) (f_code f) (f_name f))
      else
        (case f_points f of
           None \<Rightarrow>
             Inl (IllFormattedPointValue
               (''In the 'Edit contest' menu, please fill in the 'Info' field '' @
                '' for each problem with a floating point numerical value'')
               (f_id f) (f_code f) (f_name f))
         | Some pts \<Rightarrow>
             Inr \<lparr>p_id = f_id f, p_timelimit = f_timelimit f, p_opt = f_opt f,
                  p_pset = f_pset f, p_starttime = f_starttime f, p_endtime = f_endtime f,
                  p_points = pts, p_code = f_code f, p_name = f_name f\<rparr>))"

subsection \<open>Loading the problems and the users\<close>

text \<open>What \<^verbatim>\<open>main\<close> prints in its \<^verbatim>\<open>catch\<close> block: the message, the problem id, the
  ordinal \<^verbatim>\<open>i+1\<close> of the record, the number \<^verbatim>\<open>pr_n\<close> of records, the code and the name.\<close>

record diagnostic =
  d_msg :: string
  d_id :: int
  d_ordinal :: nat
  d_count :: nat
  d_code :: string
  d_name :: string

fun load_problems :: "nat \<Rightarrow> nat \<Rightarrow> Problem_fields list \<Rightarrow> globals \<Rightarrow> diagnostic + globals" where
  "load_problems pr_n i [] g = Inr g"
| "load_problems pr_n i (f # fs) g =
     (case Problem_ctor f of
        Inl ex \<Rightarrow>
          Inl \<lparr>d_msg = ex_msg ex, d_id = ex_id ex, d_ordinal = i + 1, d_count = pr_n,
               d_code = ex_code ex, d_name = ex_name ex\<rparr>
      | Inr pr \<Rightarrow>
          load_problems pr_n (i + 1) fs
            (g\<lparr>problems := problems g @ [pr],
               prob_id2idx := (prob_id2idx g)(p_id pr \<mapsto> i),
               problem_sets :=
                 cmap_upd (p_pset pr)
                   ((case map_of (problem_sets g) (p_pset pr) of None \<Rightarrow> [] | Some v \<Rightarrow> v) @ [i])
                   (problem_sets g)\<rparr>))"

text \<open>\<^verbatim>\<open>users.insert\<close> keeps the first user read under an id.\<close>

fun load_users :: "User list \<Rightarrow> globals \<Rightarrow> globals" where
  "load_users [] g = g"
| "load_users (usr # us) g =
     load_users us
       (case users g (u_id usr) of
          None \<Rightarrow> g\<lparr>users := (users g)(u_id usr \<mapsto> usr)\<rparr>
        | Some u \<Rightarrow> g)"

subsection \<open>Aggregating the submissions of one series\<close>

text \<open>The body of the loop over the submissions of a series, after the constructor has
  read the submission \<open>s\<close>.\<close>

definition process_submission :: "globals \<Rightarrow> Submission \<Rightarrow> globals option" where
  "process_submission g s =
     (if users g (s_userid s) = None then Some g
      else
        (case ii_map_index (prob_id2idx g) (s_problemid s) of
           (idx, ii) \<Rightarrow>
             if length (problems g) \<le> idx then None
             else
               let prb = problems g ! idx;
                   mres = (case results g (p_pset prb) of None \<Rightarrow> [] | Some m \<Rightarrow> m);
                   res0 = (case map_of mres (s_userid s) of None \<Rightarrow> Result_init | Some r \<Rightarrow> r);
                   res1 = res0\<lparr>userid := s_userid s\<rparr>;
                   up0 = (case prob res1 (s_problemid s) of
                            None \<Rightarrow> UserProblem_init | Some u \<Rightarrow> u);
                   up1 = up0\<lparr>tries := tries up0 + 1\<rparr>;
                   (res2, up2) =
                     (if solved up1 \<noteq> FULLY_SOLVED then
                        (case (if \<bar>100 - s_score s\<bar> < EPS
                               then (res1\<lparr>numsolved := numsolved res1 + 1\<rparr>,
                                     up1\<lparr>solved := FULLY_SOLVED\<rparr>)
                               else (res1,
                                     up1\<lparr>solved := PARTIALLY_SOLVED,
                                         failed_tries := failed_tries up1 + 1\<rparr>)) of
                           (res', up') \<Rightarrow>
                             (res',
                              up'\<lparr>score := s_score s, date := s_timestamp s,
                                  time := s_timestamp s - p_starttime prb\<rparr>))
                      else (res1, up1));
                   res3 = res2\<lparr>prob := (prob res2)(s_problemid s \<mapsto> up2)\<rparr>
               in Some (g\<lparr>prob_id2idx := ii,
                          results :=
                            (results g)(p_pset prb \<mapsto> cmap_upd (s_userid s) res3 mres)\<rparr>)))"

fun process_submissions :: "globals \<Rightarrow> Submission list \<Rightarrow> globals option" where
  "process_submissions g [] = Some g"
| "process_submissions g (raw # raws) =
     (case process_submission g (Submission_ctor raw) of
        None \<Rightarrow> None
      | Some g' \<Rightarrow> process_submissions g' raws)"

text \<open>A series starts with \<^verbatim>\<open>results.clear()\<close>.\<close>

definition aggregate :: "globals \<Rightarrow> Submission list \<Rightarrow> globals option" where
  "aggregate g raws = process_submissions (g\<lparr>results := Map.empty\<rparr>) raws"

subsection \<open>Scoring the results of a problem set\<close>

text \<open>The loop over the problems \<^verbatim>\<open>vprob\<close> of the set, for one result.\<close>

fun score_problems :: "Problem list \<Rightarrow> nat list \<Rightarrow> Result \<Rightarrow> Result option" where
  "score_problems ps [] res = Some res"
| "score_problems ps (j # vprob) res =
     (if length ps \<le> j then None
      else
        (case prob res (p_id (ps ! j)) of
           None \<Rightarrow> score_problems ps vprob res
         | Some up \<Rightarrow>
             if solved up \<noteq> UNSOLVED then
               score_problems ps vprob
                 (res\<lparr>totalscore := totalscore res + p_points (ps ! j) * (score up / 100),
                      penalty :=
                        int32 (penalty res +
                          int32 (int32 (failed_tries up * INCORRECT_SUBMISSION_PENALTY) * 60)),
                      last_solved := max (last_solved res) (time up)\<rparr>)
             else score_problems ps vprob res))"

definition score_result :: "Problem list \<Rightarrow> nat list \<Rightarrow> Result \<Rightarrow> Result option" where
  "score_result ps vprob res =
     (case score_problems ps vprob res of
        None \<Rightarrow> None
      | Some r \<Rightarrow> Some (r\<lparr>penalty := int32 (penalty r + last_solved r)\<rparr>))"

text \<open>The loop over the results \<^verbatim>\<open>mres\<close> of the set, in user-id order. The results are
  updated in place; \<^verbatim>\<open>vres\<close> holds copies of them in the same order.\<close>

fun score_all :: "Problem list \<Rightarrow> nat list \<Rightarrow> ur_map \<Rightarrow> ur_map option" where
  "score_all ps vprob [] = Some []"
| "score_all ps vprob ((u, res) # mres) =
     (case score_result ps vprob res of
        None \<Rightarrow> None
      | Some r \<Rightarrow>
          (case score_all ps vprob mres of
             None \<Rightarrow> None
           | Some mres' \<Rightarrow> Some ((u, r) # mres')))"

subsection \<open>The ranking table of a problem set\<close>

text \<open>The three branches that print the cell of a problem: the entry exists and is not
  \<^verbatim>\<open>UNSOLVED\<close>; the entry exists and is \<^verbatim>\<open>UNSOLVED\<close> (the same text; \<^verbatim>\<open>failed_tries\<close> is
  passed to \<^verbatim>\<open>fprintf\<close> and not printed); there is no entry (a dash).\<close>

datatype cell = Cell_earned real | Cell_unsolved real int | Cell_dash

fun render_cells :: "Problem list \<Rightarrow> nat list \<Rightarrow> Result \<Rightarrow> cell list option" where
  "render_cells ps [] res = Some []"
| "render_cells ps (j # vprob) res =
     (if length ps \<le> j then None
      else
        (case render_cells ps vprob res of
           None \<Rightarrow> None
         | Some cells \<Rightarrow>
             Some ((case prob res (p_id (ps ! j)) of
                      None \<Rightarrow> Cell_dash
                    | Some up \<Rightarrow>
                        if solved up \<noteq> UNSOLVED
                        then Cell_earned (p_points (ps ! j) * (score up / 100))
                        else Cell_unsolved (p_points (ps ! j) * (score up / 100))
                               (failed_tries up)) # cells)))"

record row =
  r_rank :: int
  r_user :: User
  r_cells :: "cell list"
  r_totalscore :: real

text \<open>The loop over the sorted rows \<^verbatim>\<open>vres\<close>, with its variables \<^verbatim>\<open>i\<close>, \<^verbatim>\<open>prev_score\<close> and
  \<^verbatim>\<open>rank\<close> (\<^verbatim>\<open>prev_penalty\<close> is written and never read). \<^verbatim>\<open>users[res.userid]\<close> is
  \<^verbatim>\<open>operator[]\<close>, so the user map is threaded through.\<close>

fun render_rows ::
  "Problem list \<Rightarrow> nat list \<Rightarrow> nat \<Rightarrow> real \<Rightarrow> int \<Rightarrow> Result list \<Rightarrow> u_map \<Rightarrow>
   (row list \<times> u_map) option" where
  "render_rows ps vprob i prev_score rank [] us = Some ([], us)"
| "render_rows ps vprob i prev_score rank (res # vres) us =
     (let rank' = (if totalscore res < prev_score - EPS then int i + 1 else rank) in
      case u_map_index us (userid res) of
        (usr, us') \<Rightarrow>
          (case render_cells ps vprob res of
             None \<Rightarrow> None
           | Some cells \<Rightarrow>
               (case render_rows ps vprob (i + 1) (totalscore res) rank' vres us' of
                  None \<Rightarrow> None
                | Some (rows, us'') \<Rightarrow>
                    Some (\<lparr>r_rank = rank', r_user = usr, r_cells = cells,
                            r_totalscore = totalscore res\<rparr> # rows, us''))))"

text \<open>The column headers: the code and the points of each problem of the set.\<close>

fun header_columns :: "Problem list \<Rightarrow> nat list \<Rightarrow> (string \<times> real) list option" where
  "header_columns ps [] = Some []"
| "header_columns ps (j # vprob) =
     (if length ps \<le> j then None
      else
        (case header_columns ps vprob of
           None \<Rightarrow> None
         | Some cols \<Rightarrow> Some ((p_code (ps ! j), p_points (ps ! j)) # cols)))"

record ranking =
  t_fields :: int
  t_columns :: "(string \<times> real) list"
  t_rows :: "row list"

text \<open>The body of the loop over the problem sets. \<^verbatim>\<open>std::sort\<close> is library code: the
  function that sorts \<^verbatim>\<open>vres\<close> is the parameter \<open>srt\<close>.\<close>

definition rank_problem_set ::
  "(Result list \<Rightarrow> Result list) \<Rightarrow> globals \<Rightarrow> string \<Rightarrow> nat list \<Rightarrow> (ranking \<times> globals) option" where
  "rank_problem_set srt g ps vprob =
     (let mres = (case results g ps of None \<Rightarrow> [] | Some m \<Rightarrow> m) in
      case score_all (problems g) vprob mres of
        None \<Rightarrow> None
      | Some mres' \<Rightarrow>
          (case header_columns (problems g) vprob of
             None \<Rightarrow> None
           | Some cols \<Rightarrow>
               (case render_rows (problems g) vprob 0 0 1 (srt (map snd mres')) (users g) of
                  None \<Rightarrow> None
                | Some (rows, us) \<Rightarrow>
                    Some (\<lparr>t_fields = 3 + int (length vprob), t_columns = cols, t_rows = rows\<rparr>,
                          g\<lparr>users := us, results := (results g)(ps \<mapsto> mres')\<rparr>))))"

fun rank_problem_sets ::
  "(Result list \<Rightarrow> Result list) \<Rightarrow> globals \<Rightarrow> pset_map \<Rightarrow> (ranking list \<times> globals) option" where
  "rank_problem_sets srt g [] = Some ([], g)"
| "rank_problem_sets srt g ((ps, vprob) # psets) =
     (case rank_problem_set srt g ps vprob of
        None \<Rightarrow> None
      | Some (t, g') \<Rightarrow>
          (case rank_problem_sets srt g' psets of
             None \<Rightarrow> None
           | Some (ts, g'') \<Rightarrow> Some (t # ts, g'')))"

subsection \<open>The program\<close>

fun run_series ::
  "(Result list \<Rightarrow> Result list) \<Rightarrow> globals \<Rightarrow> Submission list list \<Rightarrow> ranking list option" where
  "run_series srt g [] = Some []"
| "run_series srt g (raws # series) =
     (case aggregate g raws of
        None \<Rightarrow> None
      | Some g1 \<Rightarrow>
          (case rank_problem_sets srt g1 (problem_sets g1) of
             None \<Rightarrow> None
           | Some (ts, g2) \<Rightarrow>
               (case run_series srt g2 series of
                  None \<Rightarrow> None
                | Some ts' \<Rightarrow> Some (ts @ ts'))))"

text \<open>The input after the contest block: the problem records (\<^verbatim>\<open>pr_n\<close> is their
  number), the user records and the series of submissions. The output is either the
  diagnostic of the \<^verbatim>\<open>catch\<close> block or the number of rankings followed by the ranking
  tables; \<open>main\<close> returns it with the exit status.\<close>

record judge_input =
  in_problems :: "Problem_fields list"
  in_users :: "User list"
  in_series :: "Submission list list"

datatype judge_output = Judge_error diagnostic | Rankings nat "ranking list"

definition main :: "(Result list \<Rightarrow> Result list) \<Rightarrow> judge_input \<Rightarrow> (judge_output \<times> int) option" where
  "main srt inp =
     (case load_problems (length (in_problems inp)) 0 (in_problems inp) globals_init of
        Inl d \<Rightarrow> Some (Judge_error d, 1)
      | Inr g0 \<Rightarrow>
          (let g = load_users (in_users inp) g0 in
           case run_series srt g (in_series inp) of
             None \<Rightarrow> None
           | Some ts \<Rightarrow>
               Some (Rankings (length (in_series inp) * length (problem_sets g)) ts, 0)))"

subsection \<open>Notions used in the statements\<close>

text \<open>The result of user \<open>u\<close> in problem set \<open>ps\<close>, and the entry of problem id \<open>p\<close> in it.\<close>

definition lookup_res :: "globals \<Rightarrow> string \<Rightarrow> int \<Rightarrow> Result option" where
  "lookup_res g ps u = (case results g ps of None \<Rightarrow> None | Some mres \<Rightarrow> map_of mres u)"

definition lookup_up :: "globals \<Rightarrow> string \<Rightarrow> int \<Rightarrow> int \<Rightarrow> UserProblem option" where
  "lookup_up g ps u p = (case lookup_res g ps u of None \<Rightarrow> None | Some res \<Rightarrow> prob res p)"

text \<open>The problem \<^verbatim>\<open>problems[prob_id2idx[p]]\<close> to which the program attributes a submission
  with problem id \<open>p\<close>.\<close>

definition problem_of :: "globals \<Rightarrow> int \<Rightarrow> Problem" where
  "problem_of g p = problems g ! fst (ii_map_index (prob_id2idx g) p)"

text \<open>The test \<^verbatim>\<open>fabs(100. - s.score) < EPS\<close> of the loop body.\<close>

definition is_full :: "Submission \<Rightarrow> bool" where
  "is_full s = (\<bar>100 - s_score s\<bar> < EPS)"

text \<open>The submissions of a series for user \<open>u\<close> and problem id \<open>p\<close>, in input order, as the
  constructor returns them.\<close>

definition subs_of :: "int \<Rightarrow> int \<Rightarrow> Submission list \<Rightarrow> Submission list" where
  "subs_of u p raws =
     filter (\<lambda>s. s_userid s = u \<and> s_problemid s = p) (map Submission_ctor raws)"

text \<open>The effect of the loop body on the entry and on the result that it updates; \<open>st\<close> is
  the start time of the problem.\<close>

definition uprob_step :: "int \<Rightarrow> Submission \<Rightarrow> UserProblem \<Rightarrow> UserProblem" where
  "uprob_step st s up =
     (if solved up \<noteq> FULLY_SOLVED then
        (if is_full s
         then up\<lparr>tries := tries up + 1, solved := FULLY_SOLVED, score := s_score s,
                 date := s_timestamp s, time := s_timestamp s - st\<rparr>
         else up\<lparr>tries := tries up + 1, solved := PARTIALLY_SOLVED,
                 failed_tries := failed_tries up + 1, score := s_score s,
                 date := s_timestamp s, time := s_timestamp s - st\<rparr>)
      else up\<lparr>tries := tries up + 1\<rparr>)"

definition entry_or_init :: "UserProblem option \<Rightarrow> UserProblem" where
  "entry_or_init x = (case x of None \<Rightarrow> UserProblem_init | Some up \<Rightarrow> up)"

definition result_step :: "int \<Rightarrow> Submission \<Rightarrow> Result \<Rightarrow> Result" where
  "result_step st s res =
     res\<lparr>userid := s_userid s,
         numsolved :=
           (if solved (entry_or_init (prob res (s_problemid s))) \<noteq> FULLY_SOLVED \<and> is_full s
            then numsolved res + 1 else numsolved res),
         prob := (prob res)(s_problemid s \<mapsto>
           uprob_step st s (entry_or_init (prob res (s_problemid s))))\<rparr>"

text \<open>In the words of the specification: the entries that count for a result are those of
  the set's problems whose entry exists and is not \<^verbatim>\<open>UNSOLVED\<close>.\<close>

definition scored_entries :: "Problem list \<Rightarrow> nat list \<Rightarrow> Result \<Rightarrow> (Problem \<times> UserProblem) list" where
  "scored_entries ps vprob res =
     concat (map (\<lambda>j. case prob res (p_id (ps ! j)) of
                         None \<Rightarrow> []
                       | Some up \<Rightarrow> if solved up \<noteq> UNSOLVED then [(ps ! j, up)] else [])
                 vprob)"

text \<open>In the words of the specification, for a result \<open>res\<close> before it is scored and the
  problems \<open>vprob\<close> of its set: the total score is the sum of \<open>points * (score / 100)\<close> over
  the problems whose entry exists and is not \<^verbatim>\<open>UNSOLVED\<close>, a problem without an entry
  contributing 0; the failed tries are summed over those same entries; \<^verbatim>\<open>last_solved\<close> is
  the maximum of their time offsets, starting from 0.\<close>

definition spec_totalscore :: "Problem list \<Rightarrow> nat list \<Rightarrow> Result \<Rightarrow> real" where
  "spec_totalscore ps vprob res =
     (\<Sum>j\<leftarrow>vprob. case prob res (p_id (ps ! j)) of
                      None \<Rightarrow> 0
                    | Some up \<Rightarrow>
                        if solved up \<noteq> UNSOLVED then p_points (ps ! j) * (score up / 100) else 0)"

definition spec_failed_tries :: "Problem list \<Rightarrow> nat list \<Rightarrow> Result \<Rightarrow> int" where
  "spec_failed_tries ps vprob res = (\<Sum>(pr, up)\<leftarrow>scored_entries ps vprob res. failed_tries up)"

definition spec_last_solved :: "Problem list \<Rightarrow> nat list \<Rightarrow> Result \<Rightarrow> int" where
  "spec_last_solved ps vprob res =
     Max (set (0 # map (\<lambda>(pr, up). time up) (scored_entries ps vprob res)))"

text \<open>The results \<^verbatim>\<open>results[ps]\<close> of a problem set, in user-id order.\<close>

definition set_results :: "globals \<Rightarrow> string \<Rightarrow> ur_map" where
  "set_results g ps = (case results g ps of None \<Rightarrow> [] | Some m \<Rightarrow> m)"

text \<open>Rows are in the comparator's order when no row is less than the row before it.\<close>

fun rows_ordered :: "Result list \<Rightarrow> bool" where
  "rows_ordered (a # b # rs) = (\<not> Result_less b a \<and> rows_ordered (b # rs))"
| "rows_ordered rs = True"

text \<open>The entry of one user and one problem after its submissions \<open>subs\<close>, from the
  entry \<open>x\<close> before them.\<close>

definition uprob_run :: "int \<Rightarrow> Submission list \<Rightarrow> UserProblem option \<Rightarrow> UserProblem option" where
  "uprob_run st subs x = foldl (\<lambda>x s. Some (uprob_step st s (entry_or_init x))) x subs"

text \<open>What aggregation maintains of every result: the solved count is the number of
  fully solved entries, every entry has been tried and is not \<^verbatim>\<open>UNSOLVED\<close>, and the
  fields of the scoring phase are still at their initial value.\<close>

definition res_inv :: "Result \<Rightarrow> bool" where
  "res_inv res =
     (finite (dom (prob res))
      \<and> numsolved res = int (card {p. \<exists>up. prob res p = Some up \<and> solved up = FULLY_SOLVED})
      \<and> (\<forall>p up. prob res p = Some up \<longrightarrow> 1 \<le> tries up \<and> solved up \<noteq> UNSOLVED)
      \<and> totalscore res = 0 \<and> penalty res = 0 \<and> last_solved res = 0)"

text \<open>A problem record passes the two checks of the constructor.\<close>

definition record_valid :: "Problem_fields \<Rightarrow> bool" where
  "record_valid f = (f_opt f = 0 \<and> f_points f \<noteq> None)"

text \<open>What the loaders establish of the catalogue: every index stored in
  \<^verbatim>\<open>prob_id2idx\<close> and in \<^verbatim>\<open>problem_sets\<close> is an index of \<^verbatim>\<open>problems\<close>.\<close>

definition catalog_ok :: "globals \<Rightarrow> bool" where
  "catalog_ok g =
     ((\<forall>k i. prob_id2idx g k = Some i \<longrightarrow> i < length (problems g))
      \<and> (\<forall>ps vprob. (ps, vprob) \<in> set (problem_sets g) \<longrightarrow> (\<forall>j\<in>set vprob. j < length (problems g))))"

subsection \<open>Example data\<close>

text \<open>A catalogue with two problems of the set \<open>A\<close> (ids 1 and 2, 100 and 50 points, start
  time 1000) and one user (id 7), as the loaders build it, the same catalogue with a second
  user (id 8), and submissions given by user, problem, timestamp and score.\<close>

definition example_problem :: Problem where
  "example_problem =
     \<lparr>p_id = 1, p_timelimit = 1, p_opt = 0, p_pset = ''A'', p_starttime = 1000,
      p_endtime = 2000, p_points = 100, p_code = ''P1'', p_name = ''P one''\<rparr>"

definition example_problem2 :: Problem where
  "example_problem2 =
     \<lparr>p_id = 2, p_timelimit = 1, p_opt = 0, p_pset = ''A'', p_starttime = 1000,
      p_endtime = 2000, p_points = 50, p_code = ''P2'', p_name = ''P two''\<rparr>"

definition example_user :: User where
  "example_user =
     \<lparr>u_id = 7, u_login = ''u7'', u_name = ''U seven'', u_email_address = [],
      u_institution = ''I'', u_info = []\<rparr>"

definition example_globals :: globals where
  "example_globals =
     \<lparr>problems = [example_problem, example_problem2], prob_id2idx = [1 \<mapsto> 0, 2 \<mapsto> 1],
      problem_sets = [(''A'', [0, 1])], users = [7 \<mapsto> example_user], results = Map.empty\<rparr>"

definition example_user8 :: User where
  "example_user8 =
     \<lparr>u_id = 8, u_login = ''u8'', u_name = ''U eight'', u_email_address = [],
      u_institution = ''J'', u_info = []\<rparr>"

definition example_globals2 :: globals where
  "example_globals2 = example_globals\<lparr>users := [7 \<mapsto> example_user, 8 \<mapsto> example_user8]\<rparr>"

definition example_sub :: "int \<Rightarrow> int \<Rightarrow> int \<Rightarrow> real \<Rightarrow> Submission" where
  "example_sub u p t sc =
     \<lparr>s_userid = u, s_problemid = p, s_timestamp = t, s_status = 15, s_language = 41,
      s_score = sc, s_time = 0, s_date = []\<rparr>"

definition example_fields :: "int \<Rightarrow> int \<Rightarrow> real option \<Rightarrow> Problem_fields" where
  "example_fields i opt pts =
     \<lparr>f_id = i, f_timelimit = 1, f_code = ''P'', f_name = ''Problem'', f_opt = opt,
      f_pset = ''A'', f_starttime = 1000, f_endtime = 2000, f_points = pts\<rparr>"

section \<open>Theorems\<close>

subsection \<open>The comparator\<close>

lemma EPS_pos: "0 < EPS"
  by (simp add: EPS_def)

lemma score_tied_sym: "score_tied l r = score_tied r l"
  by (simp add: score_tied_def abs_minus_commute)

lemma Result_less_tied:
  "score_tied l r \<Longrightarrow>
   Result_less l r =
     (penalty l < penalty r \<or> penalty l = penalty r \<and>
       (last_solved l < last_solved r \<or> last_solved l = last_solved r \<and>
         (numsolved r < numsolved l \<or> numsolved l = numsolved r \<and> userid l < userid r)))"
  by (auto simp: Result_less_def score_tied_def)

lemma Result_less_untied:
  "\<not> score_tied l r \<Longrightarrow> Result_less l r = (totalscore r + EPS < totalscore l)"
  using EPS_pos by (auto simp: Result_less_def score_tied_def)

lemma untied_cases:
  "\<not> score_tied l r \<Longrightarrow> totalscore r + EPS < totalscore l \<or> totalscore l + EPS < totalscore r"
  by (auto simp: score_tied_def)

lemma Result_less_irrefl: "\<not> Result_less a a"
  by (simp add: Result_less_def EPS_def)

lemma Result_less_asym: "Result_less a b \<Longrightarrow> \<not> Result_less b a"
  using EPS_pos by (cases "score_tied a b")
    (auto simp: Result_less_tied Result_less_untied score_tied_sym [of b a])

lemma Result_less_trans_on:
  assumes S: "eps_transitive_on S" and m: "a \<in> S" "b \<in> S" "c \<in> S"
    and ab: "Result_less a b" and bc: "Result_less b c"
  shows "Result_less a c"
proof -
  have tr: "\<And>x y z. x \<in> S \<Longrightarrow> y \<in> S \<Longrightarrow> z \<in> S \<Longrightarrow> score_tied x y \<Longrightarrow> score_tied y z
      \<Longrightarrow> score_tied x z"
    using S unfolding eps_transitive_on_def by blast
  show ?thesis
  proof (cases "score_tied a b")
    case tab: True
    show ?thesis
    proof (cases "score_tied b c")
      case tbc: True
      have tac: "score_tied a c" using tr [OF m(1) m(2) m(3) tab tbc] .
      show ?thesis
        using ab bc by (simp add: Result_less_tied tab tbc tac) linarith
    next
      case nbc: False
      have nac: "\<not> score_tied a c"
      proof
        assume "score_tied a c"
        with tr [OF m(2) m(1) m(3)] tab have "score_tied b c"
          by (simp add: score_tied_sym [of b a])
        with nbc show False by simp
      qed
      have "totalscore c + EPS < totalscore b"
        using bc nbc by (simp add: Result_less_untied)
      moreover have "\<bar>totalscore a - totalscore b\<bar> \<le> EPS"
        using tab by (simp add: score_tied_def)
      ultimately have "totalscore c < totalscore a" by linarith
      with untied_cases [OF nac] EPS_pos show ?thesis
        by (auto simp: Result_less_untied nac)
    qed
  next
    case nab: False
    have ab': "totalscore b + EPS < totalscore a"
      using ab nab by (simp add: Result_less_untied)
    show ?thesis
    proof (cases "score_tied b c")
      case tbc: True
      have nac: "\<not> score_tied a c"
      proof
        assume "score_tied a c"
        with tr [OF m(1) m(3) m(2)] tbc have "score_tied a b"
          by (simp add: score_tied_sym [of c b])
        with nab show False by simp
      qed
      have "\<bar>totalscore b - totalscore c\<bar> \<le> EPS"
        using tbc by (simp add: score_tied_def)
      with ab' have "totalscore c < totalscore a" by linarith
      with untied_cases [OF nac] EPS_pos show ?thesis
        by (auto simp: Result_less_untied nac)
    next
      case nbc: False
      have bc': "totalscore c + EPS < totalscore b"
        using bc nbc by (simp add: Result_less_untied)
      have lt: "totalscore c + EPS < totalscore a"
        using ab' bc' EPS_pos by linarith
      then have "\<not> score_tied a c" by (auto simp: score_tied_def)
      with lt show ?thesis by (simp add: Result_less_untied)
    qed
  qed
qed

lemma incomparable_iff:
  "incomparable a b =
     (score_tied a b \<and> penalty a = penalty b \<and> last_solved a = last_solved b \<and>
      numsolved a = numsolved b \<and> userid a = userid b)"
proof (cases "score_tied a b")
  case True
  then show ?thesis
    by (auto simp: incomparable_def Result_less_tied score_tied_sym [of b a])
next
  case False
  with untied_cases [OF False] show ?thesis
    by (auto simp: incomparable_def Result_less_untied score_tied_sym [of b a])
qed

lemma incomparable_trans_on:
  assumes S: "eps_transitive_on S" and m: "a \<in> S" "b \<in> S" "c \<in> S"
    and ab: "incomparable a b" and bc: "incomparable b c"
  shows "incomparable a c"
proof -
  have "score_tied a c"
    using S m ab bc unfolding eps_transitive_on_def incomparable_iff by blast
  with ab bc show ?thesis by (simp add: incomparable_iff)
qed

text \<open>
  Claim C6, as stated, fails: the comparator is not transitive. Three results whose
  total scores are 0, \<open>2\<^sup>-\<^sup>3\<^sup>0\<close> and \<open>2\<^sup>-\<^sup>2\<^sup>9\<close> (all exact in \<^verbatim>\<open>double\<close>) and whose penalties
  are 0, 600 and 1200: the first two and the last two tie on the score (the difference
  is at most \<open>EPS\<close>) and are ordered by penalty, the first and the third differ by more
  than \<open>EPS\<close> and are ordered by score, the other way.
\<close>

theorem Result_less_not_transitive:
  "Result_less
     \<lparr>userid = 1, numsolved = 0, last_solved = 0, totalscore = 0, penalty = 0,
      prob = Map.empty\<rparr>
     \<lparr>userid = 2, numsolved = 0, last_solved = 0, totalscore = 1 / 2 ^ 30, penalty = 600,
      prob = Map.empty\<rparr>
   \<and> Result_less
     \<lparr>userid = 2, numsolved = 0, last_solved = 0, totalscore = 1 / 2 ^ 30, penalty = 600,
      prob = Map.empty\<rparr>
     \<lparr>userid = 3, numsolved = 0, last_solved = 0, totalscore = 1 / 2 ^ 29, penalty = 1200,
      prob = Map.empty\<rparr>
   \<and> \<not> Result_less
     \<lparr>userid = 1, numsolved = 0, last_solved = 0, totalscore = 0, penalty = 0,
      prob = Map.empty\<rparr>
     \<lparr>userid = 3, numsolved = 0, last_solved = 0, totalscore = 1 / 2 ^ 29, penalty = 1200,
      prob = Map.empty\<rparr>"
  by (simp add: Result_less_def EPS_def)

text \<open>
  Claim C6, amended: the comparator orders by total score descending when the scores
  differ by more than \<open>EPS\<close>, and otherwise by penalty ascending, \<^verbatim>\<open>last_solved\<close>
  ascending, solved count descending and user id ascending. It is irreflexive and
  asymmetric on all results. On every set of results on which tying on the score is
  transitive it is transitive and its incomparability relation is an equivalence: a
  strict weak ordering of that set.
\<close>

theorem Result_less_strict_weak_order_on:
  assumes "eps_transitive_on S"
  shows "(\<forall>a b. Result_less a b =
            (if score_tied a b
             then penalty a < penalty b \<or> penalty a = penalty b \<and>
               (last_solved a < last_solved b \<or> last_solved a = last_solved b \<and>
                 (numsolved b < numsolved a \<or> numsolved a = numsolved b \<and>
                   userid a < userid b))
             else totalscore b + EPS < totalscore a))
       \<and> (\<forall>a. \<not> Result_less a a)
       \<and> (\<forall>a b. Result_less a b \<longrightarrow> \<not> Result_less b a)
       \<and> (\<forall>a\<in>S. \<forall>b\<in>S. \<forall>c\<in>S. Result_less a b \<and> Result_less b c \<longrightarrow> Result_less a c)
       \<and> (\<forall>a. incomparable a a)
       \<and> (\<forall>a b. incomparable a b \<longrightarrow> incomparable b a)
       \<and> (\<forall>a\<in>S. \<forall>b\<in>S. \<forall>c\<in>S. incomparable a b \<and> incomparable b c \<longrightarrow> incomparable a c)"
proof -
  have keys: "\<forall>a b. Result_less a b =
            (if score_tied a b
             then penalty a < penalty b \<or> penalty a = penalty b \<and>
               (last_solved a < last_solved b \<or> last_solved a = last_solved b \<and>
                 (numsolved b < numsolved a \<or> numsolved a = numsolved b \<and>
                   userid a < userid b))
             else totalscore b + EPS < totalscore a)"
    by (simp add: Result_less_tied Result_less_untied)
  have irr: "\<forall>a. \<not> Result_less a a"
    by (simp add: Result_less_irrefl)
  have asym: "\<forall>a b. Result_less a b \<longrightarrow> \<not> Result_less b a"
    using Result_less_asym by blast
  have trans: "\<forall>a\<in>S. \<forall>b\<in>S. \<forall>c\<in>S. Result_less a b \<and> Result_less b c \<longrightarrow> Result_less a c"
    using Result_less_trans_on [OF assms] by blast
  have irefl: "\<forall>a. incomparable a a"
    by (simp add: incomparable_def Result_less_irrefl)
  have isym: "\<forall>a b. incomparable a b \<longrightarrow> incomparable b a"
    by (simp add: incomparable_def)
  have itrans: "\<forall>a\<in>S. \<forall>b\<in>S. \<forall>c\<in>S. incomparable a b \<and> incomparable b c \<longrightarrow> incomparable a c"
    using incomparable_trans_on [OF assms] by blast
  from keys irr asym trans irefl isym itrans show ?thesis by blast
qed

theorem Result_less_strict_weak_order_on_witness:
  "eps_transitive_on
     {\<lparr>userid = 1, numsolved = 1, last_solved = 0, totalscore = 50, penalty = 600,
       prob = Map.empty\<rparr>,
      \<lparr>userid = 2, numsolved = 1, last_solved = 0, totalscore = 50, penalty = 1200,
       prob = Map.empty\<rparr>,
      \<lparr>userid = 3, numsolved = 0, last_solved = 0, totalscore = 30, penalty = 0,
       prob = Map.empty\<rparr>}
   \<and> Result_less
     \<lparr>userid = 1, numsolved = 1, last_solved = 0, totalscore = 50, penalty = 600,
      prob = Map.empty\<rparr>
     \<lparr>userid = 2, numsolved = 1, last_solved = 0, totalscore = 50, penalty = 1200,
      prob = Map.empty\<rparr>
   \<and> Result_less
     \<lparr>userid = 2, numsolved = 1, last_solved = 0, totalscore = 50, penalty = 1200,
      prob = Map.empty\<rparr>
     \<lparr>userid = 3, numsolved = 0, last_solved = 0, totalscore = 30, penalty = 0,
      prob = Map.empty\<rparr>
   \<and> Result_less
     \<lparr>userid = 1, numsolved = 1, last_solved = 0, totalscore = 50, penalty = 600,
      prob = Map.empty\<rparr>
     \<lparr>userid = 3, numsolved = 0, last_solved = 0, totalscore = 30, penalty = 0,
      prob = Map.empty\<rparr>"
proof -
  define a where "a = \<lparr>userid = 1, numsolved = 1, last_solved = 0, totalscore = 50,
      penalty = 600, prob = Map.empty\<rparr>"
  define b where "b = \<lparr>userid = 2, numsolved = 1, last_solved = 0, totalscore = 50,
      penalty = 1200, prob = Map.empty\<rparr>"
  define c where "c = \<lparr>userid = 3, numsolved = 0, last_solved = 0, totalscore = 30,
      penalty = 0, prob = Map.empty\<rparr>"
  have h: "eps_transitive_on {a, b, c}"
    by (simp add: a_def b_def c_def eps_transitive_on_def score_tied_def EPS_def)
  have ab: "Result_less a b" and bc: "Result_less b c"
    by (simp_all add: a_def b_def c_def Result_less_def EPS_def)
  note tr = Result_less_strict_weak_order_on [OF h, THEN conjunct2, THEN conjunct2,
      THEN conjunct2, THEN conjunct1]
  have "a \<in> {a, b, c}" "b \<in> {a, b, c}" "c \<in> {a, b, c}"
    by simp_all
  with tr ab bc have ac: "Result_less a c"
    by (meson bspec)
  from h ab bc ac show ?thesis
    unfolding a_def b_def c_def by (intro conjI)
qed

subsection \<open>Aggregation: the effect of one submission and of a series\<close>

lemma map_of_cmap_upd [simp]: "map_of (cmap_upd k v m) = (map_of m)(k \<mapsto> v)"
  by (induction m) (auto simp: fun_upd_twist)

lemma ii_map_index_fst:
  "fst (ii_map_index (snd (ii_map_index m k)) k') = fst (ii_map_index m k')"
  by (auto simp: ii_map_index_def split: option.splits)

lemma process_submission_unknown:
  "users g (s_userid s) = None \<Longrightarrow> process_submission g s = Some g"
  by (simp add: process_submission_def)

lemma process_submission_known:
  assumes "users g (s_userid s) \<noteq> None"
  shows "process_submission g s =
    (if length (problems g) \<le> fst (ii_map_index (prob_id2idx g) (s_problemid s)) then None
     else Some (g\<lparr>prob_id2idx := snd (ii_map_index (prob_id2idx g) (s_problemid s)),
        results := (results g)(p_pset (problem_of g (s_problemid s)) \<mapsto>
          cmap_upd (s_userid s)
            (result_step (p_starttime (problem_of g (s_problemid s))) s
               (case lookup_res g (p_pset (problem_of g (s_problemid s))) (s_userid s) of
                  None \<Rightarrow> Result_init | Some r \<Rightarrow> r))
            (case results g (p_pset (problem_of g (s_problemid s))) of None \<Rightarrow> [] | Some m \<Rightarrow> m))\<rparr>))"
  using assms
  by (auto simp: process_submission_def problem_of_def lookup_res_def result_step_def uprob_step_def
      entry_or_init_def is_full_def Let_def split: prod.splits option.splits)

lemma process_submission_frame:
  assumes "process_submission g s = Some g'"
  shows "users g' = users g" and "problems g' = problems g"
    and "problem_sets g' = problem_sets g" and "problem_of g' p = problem_of g p"
proof -
  show "users g' = users g" "problems g' = problems g" "problem_sets g' = problem_sets g"
    using assms
    by (cases "users g (s_userid s) = None";
        auto simp: process_submission_unknown process_submission_known split: if_splits)+
  show "problem_of g' p = problem_of g p"
    using assms
    by (cases "users g (s_userid s) = None")
      (auto simp: process_submission_unknown process_submission_known problem_of_def
        ii_map_index_fst split: if_splits)
qed

lemma lookup_res_step:
  assumes "process_submission g s = Some g'"
  shows "lookup_res g' ps u =
    (if users g (s_userid s) \<noteq> None \<and> u = s_userid s \<and> ps = p_pset (problem_of g (s_problemid s))
     then Some (result_step (p_starttime (problem_of g (s_problemid s))) s
                  (case lookup_res g ps u of None \<Rightarrow> Result_init | Some r \<Rightarrow> r))
     else lookup_res g ps u)"
proof (cases "users g (s_userid s) = None")
  case True
  with assms show ?thesis by (simp add: process_submission_unknown)
next
  case False
  with assms show ?thesis
    by (auto simp: process_submission_known lookup_res_def split: if_splits option.splits)
qed

lemma prob_Result_init [simp]: "prob Result_init = Map.empty"
  by (simp add: Result_init_def)

lemma lookup_up_step:
  assumes "process_submission g s = Some g'"
  shows "lookup_up g' ps u p =
    (if users g (s_userid s) \<noteq> None \<and> u = s_userid s \<and> p = s_problemid s
        \<and> ps = p_pset (problem_of g p)
     then Some (uprob_step (p_starttime (problem_of g p)) s (entry_or_init (lookup_up g ps u p)))
     else lookup_up g ps u p)"
  unfolding lookup_up_def lookup_res_step [OF assms]
  by (auto simp: result_step_def entry_or_init_def split: option.splits)

lemma uprob_run_Nil [simp]: "uprob_run st [] x = x"
  by (simp add: uprob_run_def)

lemma uprob_run_Cons [simp]:
  "uprob_run st (s # subs) x = uprob_run st subs (Some (uprob_step st s (entry_or_init x)))"
  by (simp add: uprob_run_def)

lemma uprob_run_snoc:
  "uprob_run st (subs @ [s]) x = Some (uprob_step st s (entry_or_init (uprob_run st subs x)))"
  by (simp add: uprob_run_def)

lemma process_submissions_frame:
  assumes "process_submissions g raws = Some g'"
  shows "users g' = users g \<and> problems g' = problems g \<and> problem_sets g' = problem_sets g
    \<and> problem_of g' p = problem_of g p"
  using assms
proof (induction raws arbitrary: g)
  case Nil
  then show ?case by simp
next
  case (Cons raw raws)
  then obtain g1 where 1: "process_submission g (Submission_ctor raw) = Some g1"
    and 2: "process_submissions g1 raws = Some g'"
    by (auto split: option.splits)
  from Cons.IH [OF 2] process_submission_frame [OF 1] show ?case by simp
qed

lemma lookup_up_trace:
  assumes "process_submissions g raws = Some g'"
  shows "lookup_up g' ps u p =
    (if users g u \<noteq> None \<and> ps = p_pset (problem_of g p)
     then uprob_run (p_starttime (problem_of g p)) (subs_of u p raws) (lookup_up g ps u p)
     else lookup_up g ps u p)"
  using assms
proof (induction raws arbitrary: g)
  case Nil
  then show ?case by (simp add: subs_of_def)
next
  case (Cons raw raws)
  then obtain g1 where 1: "process_submission g (Submission_ctor raw) = Some g1"
    and 2: "process_submissions g1 raws = Some g'"
    by (auto split: option.splits)
  note fr = process_submission_frame [OF 1]
  have sub: "subs_of u p (raw # raws) =
      (if s_userid (Submission_ctor raw) = u \<and> s_problemid (Submission_ctor raw) = p
       then Submission_ctor raw # subs_of u p raws else subs_of u p raws)"
    by (simp add: subs_of_def)
  show ?case
    unfolding Cons.IH [OF 2] fr lookup_up_step [OF 1] sub
    by auto
qed

lemma uprob_run_Some: "subs \<noteq> [] \<Longrightarrow> \<exists>up. uprob_run st subs x = Some up"
  by (cases subs rule: rev_cases) (simp_all add: uprob_run_snoc)

lemma entry_or_init_simps [simp]:
  "entry_or_init None = UserProblem_init" "entry_or_init (Some up) = up"
  by (simp_all add: entry_or_init_def)

lemma uprob_run_solved:
  "solved (entry_or_init (uprob_run st subs None)) =
     (if subs = [] then UNSOLVED
      else if \<exists>s\<in>set subs. is_full s then FULLY_SOLVED else PARTIALLY_SOLVED)"
  by (induction subs rule: rev_induct)
    (auto simp: uprob_run_snoc uprob_step_def UserProblem_init_def)

lemma uprob_run_tries:
  "tries (entry_or_init (uprob_run st subs None)) = int (length subs)"
  by (induction subs rule: rev_induct)
    (auto simp: uprob_run_snoc uprob_step_def UserProblem_init_def)

lemma uprob_run_failed_tries:
  "failed_tries (entry_or_init (uprob_run st subs None)) =
     int (length (takeWhile (\<lambda>s. \<not> is_full s) subs))"
proof (induction subs rule: rev_induct)
  case Nil
  then show ?case by (simp add: UserProblem_init_def)
next
  case (snoc s subs)
  show ?case
  proof (cases "\<exists>x\<in>set subs. is_full x")
    case True
    then have "takeWhile (\<lambda>s. \<not> is_full s) (subs @ [s]) = takeWhile (\<lambda>s. \<not> is_full s) subs"
      by (auto simp: takeWhile_append1)
    with True snoc show ?thesis
      using uprob_run_solved [of st subs]
      by (auto simp: uprob_run_snoc uprob_step_def)
  next
    case False
    then have tw: "takeWhile (\<lambda>s. \<not> is_full s) (subs @ [s]) = subs @ takeWhile (\<lambda>s. \<not> is_full s) [s]"
      and tw': "takeWhile (\<lambda>s. \<not> is_full s) subs = subs"
      by (auto simp: takeWhile_append2)
    from False have "solved (entry_or_init (uprob_run st subs None)) \<noteq> FULLY_SOLVED"
      using uprob_run_solved [of st subs] by auto
    with snoc tw' show ?thesis
      unfolding tw by (auto simp: uprob_run_snoc uprob_step_def)
  qed
qed

lemma uprob_run_first_full:
  assumes "subs = pre @ s1 # post" and "\<forall>x\<in>set pre. \<not> is_full x" and "is_full s1"
  shows "score (entry_or_init (uprob_run st subs None)) = s_score s1
       \<and> date (entry_or_init (uprob_run st subs None)) = s_timestamp s1
       \<and> time (entry_or_init (uprob_run st subs None)) = s_timestamp s1 - st"
  using assms
proof (induction post arbitrary: subs rule: rev_induct)
  case Nil
  have "solved (entry_or_init (uprob_run st pre None)) \<noteq> FULLY_SOLVED"
    using uprob_run_solved [of st pre] Nil by auto
  with Nil show ?case
    by (simp add: uprob_run_snoc uprob_step_def)
next
  case (snoc s post)
  have "solved (entry_or_init (uprob_run st (pre @ s1 # post) None)) = FULLY_SOLVED"
    using uprob_run_solved [of st "pre @ s1 # post"] snoc.prems by auto
  moreover have "subs = (pre @ s1 # post) @ [s]"
    using snoc.prems by simp
  ultimately show ?case
    using snoc.IH [OF refl snoc.prems(2,3)]
    by (simp only: uprob_run_snoc) (simp add: uprob_step_def)
qed

lemma uprob_run_last:
  assumes "subs \<noteq> []" and "\<forall>x\<in>set subs. \<not> is_full x"
  shows "score (entry_or_init (uprob_run st subs None)) = s_score (last subs)
       \<and> date (entry_or_init (uprob_run st subs None)) = s_timestamp (last subs)
       \<and> time (entry_or_init (uprob_run st subs None)) = s_timestamp (last subs) - st"
proof -
  from assms(1) obtain ys y where subs: "subs = ys @ [y]"
    by (cases subs rule: rev_cases) auto
  have "solved (entry_or_init (uprob_run st ys None)) \<noteq> FULLY_SOLVED"
    using uprob_run_solved [of st ys] assms(2) subs by auto
  with assms(2) show ?thesis
    unfolding subs by (simp add: uprob_run_snoc uprob_step_def)
qed

lemma is_full_ctor: "is_full (Submission_ctor raw) = (s_score (Submission_ctor raw) = 100)"
  using EPS_pos by (auto simp: is_full_def Submission_ctor_def)

lemma is_full_subs_of: "s \<in> set (subs_of u p raws) \<Longrightarrow> is_full s = (s_score s = 100)"
  by (auto simp: subs_of_def is_full_ctor)

lemma res_inv_init: "res_inv Result_init"
  by (simp add: res_inv_def Result_init_def)

lemma solved_uprob_step:
  "solved (uprob_step st s up) =
     (if solved up = FULLY_SOLVED \<or> is_full s then FULLY_SOLVED else PARTIALLY_SOLVED)"
  by (simp add: uprob_step_def)

lemma tries_uprob_step: "tries (uprob_step st s up) = tries up + 1"
  by (simp add: uprob_step_def)

lemma fully_set_step:
  "{p. \<exists>up. prob (result_step st s res) p = Some up \<and> solved up = FULLY_SOLVED} =
     (if solved (entry_or_init (prob res (s_problemid s))) = FULLY_SOLVED \<or> is_full s
      then insert (s_problemid s) {p. \<exists>up. prob res p = Some up \<and> solved up = FULLY_SOLVED}
      else {p. \<exists>up. prob res p = Some up \<and> solved up = FULLY_SOLVED})"
  by (auto simp: result_step_def solved_uprob_step entry_or_init_def split: option.splits)

lemma fully_set_finite:
  "finite (dom (prob res)) \<Longrightarrow> finite {p. \<exists>up. prob res p = Some up \<and> solved up = FULLY_SOLVED}"
  by (rule finite_subset [of _ "dom (prob res)"]) auto

lemma res_inv_step:
  assumes "res_inv res"
  shows "res_inv (result_step st s res)"
proof -
  let ?F = "{p. \<exists>up. prob res p = Some up \<and> solved up = FULLY_SOLVED}"
  from assms have fin: "finite (dom (prob res))" and num: "numsolved res = int (card ?F)"
    and ent: "\<And>p up. prob res p = Some up \<Longrightarrow> 1 \<le> tries up \<and> solved up \<noteq> UNSOLVED"
    and z: "totalscore res = 0" "penalty res = 0" "last_solved res = 0"
    by (auto simp: res_inv_def)
  have finF: "finite ?F" using fin by (rule fully_set_finite)
  have mem: "s_problemid s \<in> ?F \<longleftrightarrow> solved (entry_or_init (prob res (s_problemid s))) = FULLY_SOLVED"
    by (auto simp: entry_or_init_def UserProblem_init_def split: option.splits)
  have 1: "finite (dom (prob (result_step st s res)))"
    using fin by (simp add: result_step_def)
  have 2: "numsolved (result_step st s res) =
      int (card {p. \<exists>up. prob (result_step st s res) p = Some up \<and> solved up = FULLY_SOLVED})"
    unfolding fully_set_step using finF mem num
    by (auto simp: result_step_def insert_absorb)
  have t0: "0 \<le> tries (entry_or_init (prob res (s_problemid s)))"
  proof (cases "prob res (s_problemid s)")
    case None
    then show ?thesis by (simp add: UserProblem_init_def)
  next
    case (Some up)
    with ent [OF Some] show ?thesis by simp
  qed
  have 3: "\<And>p up. prob (result_step st s res) p = Some up \<Longrightarrow>
      1 \<le> tries up \<and> solved up \<noteq> UNSOLVED"
    using ent t0
    by (auto simp: result_step_def solved_uprob_step tries_uprob_step split: if_splits)
  have 4: "totalscore (result_step st s res) = 0" "penalty (result_step st s res) = 0"
    "last_solved (result_step st s res) = 0"
    using z by (simp_all add: result_step_def)
  from 1 2 3 4 show ?thesis
    unfolding res_inv_def by blast
qed

lemma res_inv_process_submission:
  assumes "process_submission g s = Some g'"
    and "\<And>ps u res. lookup_res g ps u = Some res \<Longrightarrow> res_inv res \<and> userid res = u"
    and "lookup_res g' ps u = Some res"
  shows "res_inv res \<and> userid res = u"
  using assms(2) [of ps u] assms(3) res_inv_init
  unfolding lookup_res_step [OF assms(1)]
  by (auto simp: res_inv_step split: if_splits option.splits) (simp_all add: result_step_def)

lemma res_inv_process_submissions:
  assumes "process_submissions g raws = Some g'"
    and "\<And>ps u res. lookup_res g ps u = Some res \<Longrightarrow> res_inv res \<and> userid res = u"
    and "lookup_res g' ps u = Some res"
  shows "res_inv res \<and> userid res = u"
  using assms
proof (induction raws arbitrary: g)
  case Nil
  then show ?case by simp
next
  case (Cons raw raws)
  then obtain g1 where 1: "process_submission g (Submission_ctor raw) = Some g1"
    and 2: "process_submissions g1 raws = Some g'"
    by (auto split: option.splits)
  show ?case
    by (rule Cons.IH [OF 2 _ Cons.prems(3)])
      (rule res_inv_process_submission [OF 1 Cons.prems(2)])
qed

lemma res_inv_aggregate:
  assumes "aggregate g raws = Some g'" and "lookup_res g' ps u = Some res"
  shows "res_inv res \<and> userid res = u"
  using assms(1) unfolding aggregate_def
  by (rule res_inv_process_submissions [OF _ _ assms(2)]) (simp add: lookup_res_def)

lemma lookup_up_aggregate:
  assumes "aggregate g raws = Some g'"
  shows "lookup_up g' ps u p =
    (if users g u \<noteq> None \<and> ps = p_pset (problem_of g p)
     then uprob_run (p_starttime (problem_of g p)) (subs_of u p raws) None
     else None)"
  using lookup_up_trace [OF assms [unfolded aggregate_def], of ps u p]
  by (simp add: lookup_up_def lookup_res_def problem_of_def)

lemma lookup_up_res:
  "lookup_up g ps u p = Some up \<Longrightarrow> \<exists>res. lookup_res g ps u = Some res \<and> prob res p = Some up"
  by (auto simp: lookup_up_def split: option.splits)

lemma lookup_res_up:
  "lookup_res g ps u = Some res \<Longrightarrow> lookup_up g ps u p = prob res p"
  by (simp add: lookup_up_def)

lemma takeWhile_subs_of:
  "takeWhile (\<lambda>s. \<not> is_full s) (subs_of u p raws) = takeWhile (\<lambda>s. s_score s \<noteq> 100) (subs_of u p raws)"
  by (rule takeWhile_cong) (simp_all add: is_full_subs_of)

lemma ex_full_subs_of:
  "(\<exists>s\<in>set (subs_of u p raws). is_full s) = (\<exists>s\<in>set (subs_of u p raws). s_score s = 100)"
  by (auto simp: is_full_subs_of)

lemma lookup_res_unknown:
  assumes "process_submissions g raws = Some g'" and "users g u = None"
  shows "lookup_res g' ps u = lookup_res g ps u"
  using assms
proof (induction raws arbitrary: g)
  case Nil
  then show ?case by simp
next
  case (Cons raw raws)
  then obtain g1 where 1: "process_submission g (Submission_ctor raw) = Some g1"
    and 2: "process_submissions g1 raws = Some g'"
    by (auto split: option.splits)
  have "users g1 u = None"
    using process_submission_frame(1) [OF 1] Cons.prems(2) by simp
  from Cons.IH [OF 2 this] show ?case
    unfolding lookup_res_step [OF 1] using Cons.prems(2) by auto
qed

lemma aggregate_known:
  assumes agg: "aggregate g raws = Some g'" and res: "lookup_res g' ps u = Some res"
  shows "users g u \<noteq> None"
proof
  assume "users g u = None"
  with lookup_res_unknown [OF agg [unfolded aggregate_def], of u ps] res
  show False by (simp add: lookup_res_def)
qed

lemma aggregate_entry:
  assumes agg: "aggregate g raws = Some g'" and res: "lookup_res g' ps u = Some res"
  shows "prob res p =
    (if ps = p_pset (problem_of g p)
     then uprob_run (p_starttime (problem_of g p)) (subs_of u p raws) None else None)"
  using lookup_up_aggregate [OF agg, of ps u p] aggregate_known [OF agg res] res
  by (simp add: lookup_res_up)

lemma uprob_run_None: "uprob_run st subs None = None \<longleftrightarrow> subs = []"
  using uprob_run_Some [of subs st None] by (cases subs) auto

lemma aggregate_entry_Some:
  assumes agg: "aggregate g raws = Some g'" and res: "lookup_res g' ps u = Some res"
    and up: "prob res p = Some up"
  shows "ps = p_pset (problem_of g p)" and "subs_of u p raws \<noteq> []"
    and "entry_or_init (uprob_run (p_starttime (problem_of g p)) (subs_of u p raws) None) = up"
  using up unfolding aggregate_entry [OF agg res]
  by (auto split: if_splits)

lemma aggregate_numsolved:
  assumes agg: "aggregate g raws = Some g'" and res: "lookup_res g' ps u = Some res"
  shows "numsolved res =
    int (card {q. p_pset (problem_of g q) = ps \<and> (\<exists>s\<in>set (subs_of u q raws). s_score s = 100)})"
proof -
  have "{q. \<exists>up. prob res q = Some up \<and> solved up = FULLY_SOLVED} =
      {q. p_pset (problem_of g q) = ps \<and> (\<exists>s\<in>set (subs_of u q raws). s_score s = 100)}"
    (is "?A = ?B")
  proof (intro set_eqI iffI)
    fix q assume "q \<in> ?A"
    then obtain up where up: "prob res q = Some up" and f: "solved up = FULLY_SOLVED"
      by auto
    note e = aggregate_entry_Some [OF agg res up]
    from f have "\<exists>s\<in>set (subs_of u q raws). is_full s"
      unfolding e(3) [symmetric] uprob_run_solved by (auto split: if_splits)
    with e(1) show "q \<in> ?B" by (simp add: ex_full_subs_of)
  next
    fix q assume "q \<in> ?B"
    then have ps: "ps = p_pset (problem_of g q)"
      and ex: "\<exists>s\<in>set (subs_of u q raws). is_full s"
      by (auto simp: ex_full_subs_of)
    then have ne: "subs_of u q raws \<noteq> []" by auto
    then obtain up where run:
      "uprob_run (p_starttime (problem_of g q)) (subs_of u q raws) None = Some up"
      using uprob_run_Some by blast
    then have up: "prob res q = Some up"
      unfolding aggregate_entry [OF agg res] using ps by simp
    have "solved up = FULLY_SOLVED"
      using uprob_run_solved [of "p_starttime (problem_of g q)" "subs_of u q raws"] ex ne run
      by simp
    with up show "q \<in> ?A" by simp
  qed
  moreover have "res_inv res"
    using res_inv_aggregate [OF agg res] by simp
  ultimately show ?thesis by (simp add: res_inv_def)
qed

subsection \<open>The state machine of an entry\<close>

lemmas example_defs = example_problem_def example_problem2_def example_user_def example_globals_def example_sub_def

lemmas eval_defs = aggregate_def process_submission_def Submission_ctor_def ii_map_index_def
  EPS_def Result_init_def UserProblem_init_def Let_def lookup_res_def lookup_up_def
  problem_of_def subs_of_def

text \<open>
  Claim C1. For a known user \<open>u\<close> and a problem id \<open>p\<close>, let the submissions of the series
  for \<open>(u, p)\<close> be \<open>pre @ s1 # post\<close>, where \<open>s1\<close> is the first one whose normalised score is
  100. After the series the entry of \<open>(u, p)\<close> exists, is \<^verbatim>\<open>FULLY_SOLVED\<close> and records the
  score, date and time offset of \<open>s1\<close>, whatever \<open>post\<close> is: the later submissions only
  count as tries. The solved count of the owning result is the number of problem ids of
  the set for which the user has a submission of score 100: each counts once.
\<close>

theorem first_full_solve_locks_entry:
  assumes agg: "aggregate g raws = Some g'"
    and known: "users g u \<noteq> None"
    and dec: "subs_of u p raws = pre @ s1 # post"
    and pre: "\<forall>x\<in>set pre. s_score x \<noteq> 100"
    and s1: "s_score s1 = 100"
  shows "\<exists>res up. lookup_res g' (p_pset (problem_of g p)) u = Some res \<and> prob res p = Some up
      \<and> solved up = FULLY_SOLVED \<and> score up = 100 \<and> date up = s_timestamp s1
      \<and> time up = s_timestamp s1 - p_starttime (problem_of g p)
      \<and> tries up = int (length pre) + 1 + int (length post)
      \<and> failed_tries up = int (length pre)
      \<and> numsolved res =
          int (card {q. p_pset (problem_of g q) = p_pset (problem_of g p)
                        \<and> (\<exists>s\<in>set (subs_of u q raws). s_score s = 100)})"
proof -
  let ?ps = "p_pset (problem_of g p)" and ?st = "p_starttime (problem_of g p)"
  let ?subs = "subs_of u p raws"
  have ne: "?subs \<noteq> []" using dec by simp
  then obtain up where run: "uprob_run ?st ?subs None = Some up"
    using uprob_run_Some by blast
  then have "lookup_up g' ?ps u p = Some up"
    unfolding lookup_up_aggregate [OF agg] using known by simp
  then obtain res where res: "lookup_res g' ?ps u = Some res" and up: "prob res p = Some up"
    using lookup_up_res by blast
  have up_eq: "entry_or_init (uprob_run ?st ?subs None) = up"
    using run by simp
  have mem: "s1 \<in> set ?subs" "set pre \<subseteq> set ?subs"
    using dec by auto
  have full1: "is_full s1"
    using mem(1) s1 by (simp add: is_full_subs_of)
  have fullpre: "\<forall>x\<in>set pre. \<not> is_full x"
    using mem(2) pre by (auto simp: is_full_subs_of)
  have "solved up = FULLY_SOLVED"
    using uprob_run_solved [of ?st ?subs] mem(1) full1 ne unfolding up_eq by auto
  moreover have "score up = s_score s1 \<and> date up = s_timestamp s1
      \<and> time up = s_timestamp s1 - ?st"
    using uprob_run_first_full [OF dec fullpre full1, of ?st] unfolding up_eq .
  moreover have "tries up = int (length pre) + 1 + int (length post)"
    using uprob_run_tries [of ?st ?subs] unfolding up_eq by (simp add: dec)
  moreover have "takeWhile (\<lambda>s. \<not> is_full s) (pre @ s1 # post) = pre"
    using fullpre full1 by (simp add: takeWhile_append2)
  then have "failed_tries up = int (length pre)"
    using uprob_run_failed_tries [of ?st ?subs] unfolding up_eq by (simp add: dec)
  moreover note aggregate_numsolved [OF agg res]
  ultimately show ?thesis
    using res up s1 by simp
qed

theorem first_full_solve_locks_entry_witness:
  "\<exists>g'. aggregate example_globals
           [example_sub 7 1 1100 60, example_sub 7 1 1200 100, example_sub 7 1 1300 50] = Some g'
      \<and> (\<exists>res up. lookup_res g' ''A'' 7 = Some res \<and> prob res 1 = Some up
            \<and> solved up = FULLY_SOLVED \<and> score up = 100 \<and> date up = 1200 \<and> time up = 200
            \<and> tries up = 3 \<and> failed_tries up = 1 \<and> numsolved res = 1)"
proof -
  let ?raws = "[example_sub 7 1 1100 60, example_sub 7 1 1200 100, example_sub 7 1 1300 50]"
  obtain g' res0 where agg: "aggregate example_globals ?raws = Some g'"
    and res0: "lookup_res g' ''A'' 7 = Some res0" "numsolved res0 = 1"
    by (simp add: example_defs eval_defs)
  have known: "users example_globals 7 \<noteq> None"
    by (simp add: example_defs)
  have dec: "subs_of 7 1 ?raws =
      [example_sub 7 1 1100 60] @ example_sub 7 1 1200 100 # [example_sub 7 1 1300 50]"
    by (simp add: example_defs eval_defs)
  have pre: "\<forall>x\<in>set [example_sub 7 1 1100 60]. s_score x \<noteq> 100"
    and s1: "s_score (example_sub 7 1 1200 100) = 100"
    by (simp_all add: example_defs)
  have p: "p_pset (problem_of example_globals 1) = ''A''"
    "p_starttime (problem_of example_globals 1) = 1000"
    "s_timestamp (example_sub 7 1 1200 100) = 1200"
    by (simp_all add: example_defs eval_defs)
  from first_full_solve_locks_entry [OF agg known dec pre s1]
  obtain res up where "lookup_res g' ''A'' 7 = Some res \<and> prob res 1 = Some up
            \<and> solved up = FULLY_SOLVED \<and> score up = 100 \<and> date up = 1200 \<and> time up = 200
            \<and> tries up = 3 \<and> failed_tries up = 1"
    unfolding p by auto
  with agg res0 show ?thesis by auto
qed

text \<open>
  Claim C3. After a series, the \<^verbatim>\<open>failed_tries\<close> of every entry is the number of
  submissions for its user and problem that come before the first one of normalised
  score 100 (none of them has score 100), and the number of all of them when none has
  score 100.
\<close>

theorem failed_tries_counts_tries_before_first_full:
  assumes agg: "aggregate g raws = Some g'"
    and res: "lookup_res g' ps u = Some res"
    and up: "prob res p = Some up"
  shows "failed_tries up = int (length (takeWhile (\<lambda>s. s_score s \<noteq> 100) (subs_of u p raws)))
      \<and> ((\<forall>s\<in>set (subs_of u p raws). s_score s \<noteq> 100) \<longrightarrow>
            failed_tries up = int (length (subs_of u p raws)))
      \<and> (\<forall>pre s1 post. subs_of u p raws = pre @ s1 # post \<and> (\<forall>s\<in>set pre. s_score s \<noteq> 100)
            \<and> s_score s1 = 100 \<longrightarrow>
            failed_tries up = int (length (filter (\<lambda>s. s_score s \<noteq> 100) pre)))"
proof -
  note e = aggregate_entry_Some [OF agg res up]
  have 1: "failed_tries up = int (length (takeWhile (\<lambda>s. s_score s \<noteq> 100) (subs_of u p raws)))"
    using uprob_run_failed_tries [of "p_starttime (problem_of g p)" "subs_of u p raws"]
    unfolding e(3) takeWhile_subs_of .
  have 2: "failed_tries up = int (length (subs_of u p raws))"
    if "\<forall>s\<in>set (subs_of u p raws). s_score s \<noteq> 100"
  proof -
    have eq: "takeWhile (\<lambda>s. s_score s \<noteq> 100) (subs_of u p raws) = subs_of u p raws"
      using that by (simp add: takeWhile_eq_all_conv)
    from 1 show ?thesis by (simp only: eq)
  qed
  have 3: "failed_tries up = int (length (filter (\<lambda>s. s_score s \<noteq> 100) pre))"
    if "subs_of u p raws = pre @ s1 # post" "\<forall>s\<in>set pre. s_score s \<noteq> 100" "s_score s1 = 100"
    for pre s1 post
    using that unfolding 1 by (simp add: takeWhile_append2)
  from 1 2 3 show ?thesis by blast
qed

theorem failed_tries_counts_tries_before_first_full_witness:
  "\<exists>g' res up. aggregate example_globals
           [example_sub 7 1 1100 60, example_sub 7 1 1200 100, example_sub 7 1 1300 50] = Some g'
      \<and> lookup_res g' ''A'' 7 = Some res \<and> prob res 1 = Some up \<and> failed_tries up = 1"
proof -
  let ?raws = "[example_sub 7 1 1100 60, example_sub 7 1 1200 100, example_sub 7 1 1300 50]"
  obtain g' res up where agg: "aggregate example_globals ?raws = Some g'"
    and res: "lookup_res g' ''A'' 7 = Some res" and up: "prob res 1 = Some up"
    by (simp add: example_defs eval_defs)
  have "length (takeWhile (\<lambda>s. s_score s \<noteq> 100) (subs_of 7 1 ?raws)) = 1"
    by (simp add: example_defs eval_defs)
  with failed_tries_counts_tries_before_first_full [OF agg res up]
  have "failed_tries up = 1" by simp
  with agg res up show ?thesis by blast
qed

text \<open>
  Claim C2. A submission of a known user whose entry is not \<^verbatim>\<open>FULLY_SOLVED\<close> (or does not
  exist yet) overwrites the recorded score, date and time offset (timestamp minus the
  start time of the problem) with its own. Hence, when no submission of a series for
  \<open>(u, p)\<close> has score 100, the entry ends \<^verbatim>\<open>PARTIALLY_SOLVED\<close> with the values of the last
  such submission: the most recent score counts, not the best one.
\<close>

theorem unsolved_entry_takes_latest_submission:
  "(process_submission g s = Some g' \<and> users g (s_userid s) \<noteq> None
      \<and> solved (entry_or_init
            (lookup_up g (p_pset (problem_of g (s_problemid s))) (s_userid s) (s_problemid s)))
          \<noteq> FULLY_SOLVED
    \<longrightarrow> (\<exists>up. lookup_up g' (p_pset (problem_of g (s_problemid s))) (s_userid s) (s_problemid s)
               = Some up
           \<and> score up = s_score s \<and> date up = s_timestamp s
           \<and> time up = s_timestamp s - p_starttime (problem_of g (s_problemid s))))
   \<and> (aggregate g raws = Some g'' \<and> users g u \<noteq> None \<and> subs_of u p raws \<noteq> []
      \<and> (\<forall>x\<in>set (subs_of u p raws). s_score x \<noteq> 100)
    \<longrightarrow> (\<exists>up. lookup_up g'' (p_pset (problem_of g p)) u p = Some up
           \<and> solved up = PARTIALLY_SOLVED
           \<and> score up = s_score (last (subs_of u p raws))
           \<and> date up = s_timestamp (last (subs_of u p raws))
           \<and> time up = s_timestamp (last (subs_of u p raws)) - p_starttime (problem_of g p)))"
proof (intro conjI impI)
  assume a: "process_submission g s = Some g' \<and> users g (s_userid s) \<noteq> None
      \<and> solved (entry_or_init
            (lookup_up g (p_pset (problem_of g (s_problemid s))) (s_userid s) (s_problemid s)))
          \<noteq> FULLY_SOLVED"
  then have step: "process_submission g s = Some g'" by simp
  from a show "\<exists>up. lookup_up g' (p_pset (problem_of g (s_problemid s))) (s_userid s) (s_problemid s)
               = Some up
           \<and> score up = s_score s \<and> date up = s_timestamp s
           \<and> time up = s_timestamp s - p_starttime (problem_of g (s_problemid s))"
    unfolding lookup_up_step [OF step] by (simp add: uprob_step_def)
next
  let ?subs = "subs_of u p raws" and ?st = "p_starttime (problem_of g p)"
  assume a: "aggregate g raws = Some g'' \<and> users g u \<noteq> None \<and> ?subs \<noteq> []
      \<and> (\<forall>x\<in>set ?subs. s_score x \<noteq> 100)"
  then have agg: "aggregate g raws = Some g''" and ne: "?subs \<noteq> []"
    and nf: "\<forall>x\<in>set ?subs. \<not> is_full x"
    by (simp_all add: is_full_subs_of)
  obtain up where run: "uprob_run ?st ?subs None = Some up"
    using uprob_run_Some [OF ne] by blast
  then have up_eq: "entry_or_init (uprob_run ?st ?subs None) = up" by simp
  have "lookup_up g'' (p_pset (problem_of g p)) u p = Some up"
    unfolding lookup_up_aggregate [OF agg] using a run by simp
  moreover have "solved up = PARTIALLY_SOLVED"
    using uprob_run_solved [of ?st ?subs] ne nf unfolding up_eq by simp
  moreover note uprob_run_last [OF ne nf, of ?st, unfolded up_eq]
  ultimately show "\<exists>up. lookup_up g'' (p_pset (problem_of g p)) u p = Some up
           \<and> solved up = PARTIALLY_SOLVED
           \<and> score up = s_score (last ?subs)
           \<and> date up = s_timestamp (last ?subs)
           \<and> time up = s_timestamp (last ?subs) - ?st"
    by simp
qed

theorem unsolved_entry_takes_latest_submission_witness:
  "(\<exists>g' up. process_submission example_globals (example_sub 7 1 1100 40) = Some g'
        \<and> lookup_up g' ''A'' 7 1 = Some up
        \<and> score up = 40 \<and> date up = 1100 \<and> time up = 100)
   \<and> (\<exists>g'' up. aggregate example_globals [example_sub 7 1 1100 40, example_sub 7 1 1200 70]
          = Some g''
        \<and> lookup_up g'' ''A'' 7 1 = Some up \<and> solved up = PARTIALLY_SOLVED
        \<and> score up = 70 \<and> date up = 1200 \<and> time up = 200)"
proof -
  let ?s = "example_sub 7 1 1100 40"
  let ?raws = "[example_sub 7 1 1100 40, example_sub 7 1 1200 70]"
  obtain g' where step: "process_submission example_globals ?s = Some g'"
    by (simp add: example_defs eval_defs)
  have known: "users example_globals (s_userid ?s) \<noteq> None"
    by (simp add: example_defs)
  have unsolved: "solved (entry_or_init
            (lookup_up example_globals (p_pset (problem_of example_globals (s_problemid ?s)))
               (s_userid ?s) (s_problemid ?s))) \<noteq> FULLY_SOLVED"
    by (simp add: example_defs eval_defs)
  have vals': "p_pset (problem_of example_globals 1) = ''A''"
    "p_starttime (problem_of example_globals 1) = 1000"
    "s_score (last ?raws) = 70" "s_timestamp (last ?raws) = 1200"
    by (simp_all add: example_defs eval_defs)
  have vals: "s_userid ?s = 7" "s_problemid ?s = 1" "s_score ?s = 40" "s_timestamp ?s = 1100"
    by (simp_all add: example_defs eval_defs)
  from unsolved_entry_takes_latest_submission
    [where g = example_globals and s = ?s and g' = g', THEN conjunct1, THEN mp,
     OF conjI [OF step conjI [OF known unsolved]]]
  have 1: "\<exists>up. lookup_up g' ''A'' 7 1 = Some up \<and> score up = 40 \<and> date up = 1100
      \<and> time up = 100"
    unfolding vals vals' by simp
  obtain g'' where agg: "aggregate example_globals ?raws = Some g''"
    by (simp add: example_defs eval_defs)
  have known': "users example_globals 7 \<noteq> None"
    by (simp add: example_defs)
  have subs: "subs_of 7 1 ?raws = ?raws"
    by (simp add: example_defs eval_defs)
  have ne: "subs_of 7 1 ?raws \<noteq> []" and nf: "\<forall>x\<in>set (subs_of 7 1 ?raws). s_score x \<noteq> 100"
    unfolding subs by (simp_all add: example_defs)
  from unsolved_entry_takes_latest_submission
    [where g = example_globals and raws = ?raws and g'' = g'' and u = 7 and p = 1,
     THEN conjunct2, THEN mp, OF conjI [OF agg conjI [OF known' conjI [OF ne nf]]]]
  have 2: "\<exists>up. lookup_up g'' ''A'' 7 1 = Some up \<and> solved up = PARTIALLY_SOLVED
      \<and> score up = 70 \<and> date up = 1200 \<and> time up = 200"
    unfolding subs vals' by simp
  from step 1 agg 2 show ?thesis by blast
qed

subsection \<open>Scoring\<close>

lemma int32_id: "- 2147483648 \<le> x \<Longrightarrow> x \<le> 2147483647 \<Longrightarrow> int32 x = x"
  by (simp add: int32_def)

lemma int32_mod: "int32 x mod 4294967296 = x mod 4294967296"
  by (simp add: int32_def mod_simps)

lemma int32_cong: "x mod 4294967296 = y mod 4294967296 \<Longrightarrow> int32 x = int32 y"
  unfolding int32_def by (simp add: mod_add_cong [of x _ y])

lemma int32_add_left: "int32 (int32 a + b) = int32 (a + b)"
  by (rule int32_cong) (rule mod_add_cong [OF int32_mod refl])

lemma int32_add_right: "int32 (a + int32 b) = int32 (a + b)"
  by (rule int32_cong) (rule mod_add_cong [OF refl int32_mod])

lemma int32_mult_left: "int32 (int32 a * c) = int32 (a * c)"
  by (rule int32_cong) (rule mod_mult_cong [OF int32_mod refl])

lemma scored_entries_Nil [simp]: "scored_entries ps [] res = []"
  by (simp add: scored_entries_def)

lemma scored_entries_Cons:
  "scored_entries ps (j # vprob) res =
     (case prob res (p_id (ps ! j)) of
        None \<Rightarrow> []
      | Some up \<Rightarrow> if solved up \<noteq> UNSOLVED then [(ps ! j, up)] else []) @
     scored_entries ps vprob res"
  by (simp add: scored_entries_def)

lemma scored_entries_cong:
  "prob res' = prob res \<Longrightarrow> scored_entries ps vprob res' = scored_entries ps vprob res"
  by (simp add: scored_entries_def)

lemma Max_max_Cons: "Max (set (max a b # xs)) = Max (set (a # b # (xs::int list)))"
  by (cases xs) (simp_all add: max.assoc)

lemma score_problems_eq:
  assumes "\<forall>j\<in>set vprob. j < length ps"
  shows "\<exists>r. score_problems ps vprob res = Some r
      \<and> prob r = prob res \<and> userid r = userid res \<and> numsolved r = numsolved res
      \<and> totalscore r = totalscore res +
          (\<Sum>(pr, up)\<leftarrow>scored_entries ps vprob res. p_points pr * (score up / 100))
      \<and> int32 (penalty r) = int32 (penalty res +
          (\<Sum>(pr, up)\<leftarrow>scored_entries ps vprob res. failed_tries up * 600))
      \<and> last_solved r =
          Max (set (last_solved res # map (\<lambda>(pr, up). time up) (scored_entries ps vprob res)))"
  using assms
proof (induction vprob arbitrary: res)
  case Nil
  then show ?case by simp
next
  case (Cons j vprob)
  then have j: "j < length ps" and rest: "\<forall>j\<in>set vprob. j < length ps"
    by simp_all
  show ?case
  proof (cases "prob res (p_id (ps ! j))")
    case None
    with Cons.IH [OF rest, of res] j show ?thesis
      by (simp add: scored_entries_Cons)
  next
    case (Some up)
    show ?thesis
    proof (cases "solved up = UNSOLVED")
      case True
      with Some Cons.IH [OF rest, of res] j show ?thesis
        by (simp add: scored_entries_Cons)
    next
      case False
      let ?res' = "res\<lparr>totalscore := totalscore res + p_points (ps ! j) * (score up / 100),
          penalty := int32 (penalty res +
            int32 (int32 (failed_tries up * INCORRECT_SUBMISSION_PENALTY) * 60)),
          last_solved := max (last_solved res) (time up)\<rparr>"
      let ?rest = "\<Sum>(pr, up)\<leftarrow>scored_entries ps vprob res. failed_tries up * 600"
      have step: "score_problems ps (j # vprob) res = score_problems ps vprob ?res'"
        using Some False j by simp
      have se: "scored_entries ps vprob ?res' = scored_entries ps vprob res"
        by (rule scored_entries_cong) simp
      have se': "scored_entries ps (j # vprob) res = (ps ! j, up) # scored_entries ps vprob res"
        using Some False by (simp add: scored_entries_Cons)
      from Cons.IH [OF rest, of ?res'] obtain r where r: "score_problems ps vprob ?res' = Some r"
        "prob r = prob res" "userid r = userid res" "numsolved r = numsolved res"
        "totalscore r = totalscore ?res' +
          (\<Sum>(pr, up)\<leftarrow>scored_entries ps vprob res. p_points pr * (score up / 100))"
        "int32 (penalty r) = int32 (penalty ?res' + ?rest)"
        "last_solved r =
          Max (set (last_solved ?res' # map (\<lambda>(pr, up). time up) (scored_entries ps vprob res)))"
        unfolding se by auto
      have a: "last_solved ?res' = max (last_solved res) (time up)"
        by simp
      have pen: "penalty ?res' = int32 (penalty res + int32 (int32 (failed_tries up * 10) * 60))"
        by (simp add: INCORRECT_SUBMISSION_PENALTY_def)
      have c5: "totalscore r = totalscore res +
          (\<Sum>(pr, up)\<leftarrow>scored_entries ps (j # vprob) res. p_points pr * (score up / 100))"
        unfolding se' r(5) by simp
      have m1: "int32 (int32 (failed_tries up * 10) * 60) mod 4294967296 =
          (failed_tries up * 10 * 60) mod 4294967296"
        unfolding int32_mod by (rule mod_mult_cong [OF int32_mod refl])
      have m2: "int32 (penalty res + int32 (int32 (failed_tries up * 10) * 60)) mod 4294967296 =
          (penalty res + failed_tries up * 10 * 60) mod 4294967296"
        unfolding int32_mod [of "penalty res + int32 (int32 (failed_tries up * 10) * 60)"]
        by (rule mod_add_cong [OF refl m1])
      have "int32 (penalty ?res' + ?rest) = int32 (penalty res + failed_tries up * 10 * 60 + ?rest)"
        unfolding pen by (rule int32_cong) (rule mod_add_cong [OF m2 refl])
      then have c6: "int32 (penalty r) = int32 (penalty res +
          (\<Sum>(pr, up)\<leftarrow>scored_entries ps (j # vprob) res. failed_tries up * 600))"
        unfolding se' r(6) by (simp add: algebra_simps)
      have c7: "last_solved r =
          Max (set (last_solved res #
            map (\<lambda>(pr, up). time up) (scored_entries ps (j # vprob) res)))"
        unfolding se' r(7) a Max_max_Cons by simp
      show ?thesis
        unfolding step using r(1-4) c5 c6 c7 by blast
    qed
  qed
qed

lemma sum_scored_entries:
  "(\<Sum>(pr, up)\<leftarrow>scored_entries ps vprob res. f pr up) =
   (\<Sum>j\<leftarrow>vprob. case prob res (p_id (ps ! j)) of
                    None \<Rightarrow> 0
                  | Some up \<Rightarrow> if solved up \<noteq> UNSOLVED then f (ps ! j) up else (0::'a::comm_monoid_add))"
  by (induction vprob) (auto simp: scored_entries_Cons split: option.splits)

lemma sum_list_times_const:
  "(\<Sum>(pr, up)\<leftarrow>xs. f up * c) = (\<Sum>(pr, up)\<leftarrow>xs. f up) * (c::int)"
  by (induction xs) (auto simp: algebra_simps)

lemma score_result_eq:
  assumes "\<forall>j\<in>set vprob. j < length ps"
  shows "\<exists>r0 r. score_problems ps vprob res = Some r0 \<and> score_result ps vprob res = Some r
      \<and> prob r = prob res \<and> totalscore r = totalscore r0 \<and> last_solved r = last_solved r0
      \<and> penalty r = int32 (penalty r0 + last_solved r0)"
  using score_problems_eq [OF assms, of res]
  by (auto simp: score_result_def)

text \<open>The scoring of one result whose fields \<^verbatim>\<open>totalscore\<close>, \<^verbatim>\<open>penalty\<close> and \<^verbatim>\<open>last_solved\<close>
  are at their initial value 0.\<close>

lemma score_result_spec:
  assumes valid: "\<forall>j\<in>set vprob. j < length ps"
    and z: "totalscore res = 0" "penalty res = 0" "last_solved res = 0"
  shows "\<exists>r. score_result ps vprob res = Some r \<and> prob r = prob res
      \<and> userid r = userid res \<and> numsolved r = numsolved res
      \<and> totalscore r = spec_totalscore ps vprob res
      \<and> last_solved r = spec_last_solved ps vprob res
      \<and> penalty r = int32 (spec_failed_tries ps vprob res * 600 + spec_last_solved ps vprob res)"
proof -
  from score_problems_eq [OF valid, of res] obtain r0
    where r0: "score_problems ps vprob res = Some r0" "prob r0 = prob res"
      "userid r0 = userid res" "numsolved r0 = numsolved res"
      "totalscore r0 = totalscore res +
          (\<Sum>(pr, up)\<leftarrow>scored_entries ps vprob res. p_points pr * (score up / 100))"
      "int32 (penalty r0) = int32 (penalty res +
          (\<Sum>(pr, up)\<leftarrow>scored_entries ps vprob res. failed_tries up * 600))"
      "last_solved r0 =
          Max (set (last_solved res # map (\<lambda>(pr, up). time up) (scored_entries ps vprob res)))"
    by blast
  let ?r = "r0\<lparr>penalty := int32 (penalty r0 + last_solved r0)\<rparr>"
  have 1: "score_result ps vprob res = Some ?r"
    using r0(1) by (simp add: score_result_def)
  have ts: "totalscore r0 = spec_totalscore ps vprob res"
    unfolding r0(5) z sum_scored_entries spec_totalscore_def by simp
  have ls: "last_solved r0 = spec_last_solved ps vprob res"
    unfolding r0(7) z spec_last_solved_def ..
  have "int32 (penalty r0) = int32 (spec_failed_tries ps vprob res * 600)"
    unfolding r0(6) z spec_failed_tries_def sum_list_times_const by simp
  then have "int32 (int32 (penalty r0) + last_solved r0) =
      int32 (int32 (spec_failed_tries ps vprob res * 600) + last_solved r0)"
    by simp
  then have pn: "int32 (penalty r0 + last_solved r0) =
      int32 (spec_failed_tries ps vprob res * 600 + spec_last_solved ps vprob res)"
    unfolding int32_add_left ls .
  from 1 r0(2-4) ts ls pn show ?thesis by simp
qed

subsection \<open>Display ranks\<close>

lemma render_rows_Cons_Some:
  assumes "render_rows ps vprob i prev rank (res # vres) us = Some (rows, us')"
  obtains row rows' us1 where "rows = row # rows'"
    and "r_rank row = (if totalscore res < prev - EPS then int i + 1 else rank)"
    and "render_rows ps vprob (i + 1) (totalscore res) (r_rank row) vres us1 = Some (rows', us')"
  using assms
  by (auto simp: Let_def split: prod.splits option.splits)

lemma render_rows_length:
  "render_rows ps vprob i prev rank vres us = Some (rows, us') \<Longrightarrow> length rows = length vres"
proof (induction vres arbitrary: i prev rank rows us)
  case Nil
  then show ?case by simp
next
  case (Cons res vres)
  from Cons.prems show ?case
    by (rule render_rows_Cons_Some) (auto dest: Cons.IH)
qed

lemma tied_when_ordered:
  assumes "\<not> Result_less b a"
  shows "score_tied b a = (\<not> totalscore b < totalscore a - EPS)"
proof (cases "score_tied b a")
  case True
  then show ?thesis by (auto simp: score_tied_def)
next
  case False
  with assms untied_cases [OF False] show ?thesis
    by (auto simp: Result_less_untied)
qed

lemma render_rows_ranks:
  assumes "render_rows ps vprob i prev rank vres us = Some (rows, us')"
    and "rows_ordered vres" and "k < length vres"
  shows "r_rank (rows ! k) =
    (if k = 0 then (if totalscore (vres ! 0) < prev - EPS then int i + 1 else rank)
     else if score_tied (vres ! k) (vres ! (k - 1)) then r_rank (rows ! (k - 1))
     else int i + int k + 1)"
  using assms
proof (induction vres arbitrary: i prev rank rows us k)
  case Nil
  then show ?case by simp
next
  case (Cons res vres)
  from Cons.prems(1) obtain row rows' us1 where rows: "rows = row # rows'"
    and rk: "r_rank row = (if totalscore res < prev - EPS then int i + 1 else rank)"
    and rest: "render_rows ps vprob (i + 1) (totalscore res) (r_rank row) vres us1 = Some (rows', us')"
    by (rule render_rows_Cons_Some)
  show ?case
  proof (cases k)
    case 0
    with rows rk show ?thesis by simp
  next
    case (Suc k')
    with Cons.prems(3) have k': "k' < length vres" by simp
    then obtain b vres' where vres: "vres = b # vres'" by (cases vres) auto
    from Cons.prems(2) have ord: "rows_ordered vres" and nl: "\<not> Result_less b res"
      by (simp_all add: vres)
    note IH = Cons.IH [OF rest ord k']
    show ?thesis
    proof (cases k')
      case 0
      with IH tied_when_ordered [OF nl] Suc rows vres show ?thesis by simp
    next
      case (Suc k'')
      with IH \<open>k = Suc k'\<close> rows show ?thesis by simp
    qed
  qed
qed

lemma render_rows_ranks_scores:
  assumes "render_rows ps vprob i prev rank vres us = Some (rows, us')"
    and "render_rows ps2 vprob2 i prev rank vres2 us2 = Some (rows2, us2')"
    and "map totalscore vres2 = map totalscore vres"
  shows "map r_rank rows2 = map r_rank rows"
  using assms
proof (induction vres arbitrary: i prev rank rows us vres2 rows2 us2)
  case Nil
  then show ?case by simp
next
  case (Cons res vres)
  from Cons.prems(3) obtain res2 vres2' where v2: "vres2 = res2 # vres2'"
    and ts: "totalscore res2 = totalscore res" "map totalscore vres2' = map totalscore vres"
    by (cases vres2) auto
  from Cons.prems(1) obtain row rows' us1 where rows: "rows = row # rows'"
    and rk: "r_rank row = (if totalscore res < prev - EPS then int i + 1 else rank)"
    and rest: "render_rows ps vprob (i + 1) (totalscore res) (r_rank row) vres us1 = Some (rows', us')"
    by (rule render_rows_Cons_Some)
  from Cons.prems(2) [unfolded v2] obtain rowb rowsb' usb where rowsb: "rows2 = rowb # rowsb'"
    and rkb: "r_rank rowb = (if totalscore res2 < prev - EPS then int i + 1 else rank)"
    and restb: "render_rows ps2 vprob2 (i + 1) (totalscore res2) (r_rank rowb) vres2' usb
        = Some (rowsb', us2')"
    by (rule render_rows_Cons_Some)
  have eq: "r_rank rowb = r_rank row" using rk rkb ts(1) by simp
  from Cons.IH [OF rest restb [unfolded eq ts(1)] ts(2)] eq rows rowsb
  show ?case by simp
qed

text \<open>
  Claim C7. Over rows in the comparator's order, the row loop prints for each row its
  1-based position as rank, unless the row ties with the row before it on the total score
  (the two differ by at most \<open>EPS\<close>), in which case it prints the rank of the row before.
  The ranks depend on the total scores of the rows only: penalty, \<^verbatim>\<open>last_solved\<close> and
  solved count do not affect them.
\<close>

theorem display_rank_shared_on_score_ties:
  assumes rows: "render_rows ps vprob 0 0 1 vres us = Some (rows, us')"
    and ord: "rows_ordered vres"
  shows "length rows = length vres
    \<and> (\<forall>k<length vres. r_rank (rows ! k) =
          (if 0 < k \<and> score_tied (vres ! k) (vres ! (k - 1)) then r_rank (rows ! (k - 1))
           else int k + 1))
    \<and> (\<forall>vres2 us2 rows2 us2'. map totalscore vres2 = map totalscore vres
          \<and> render_rows ps vprob 0 0 1 vres2 us2 = Some (rows2, us2')
          \<longrightarrow> map r_rank rows2 = map r_rank rows)"
proof (intro conjI allI impI)
  show "length rows = length vres"
    using rows by (rule render_rows_length)
next
  fix k assume "k < length vres"
  from render_rows_ranks [OF rows ord this]
  show "r_rank (rows ! k) =
          (if 0 < k \<and> score_tied (vres ! k) (vres ! (k - 1)) then r_rank (rows ! (k - 1))
           else int k + 1)"
    by (cases "k = 0") simp_all
next
  fix vres2 us2 rows2 us2'
  assume "map totalscore vres2 = map totalscore vres
          \<and> render_rows ps vprob 0 0 1 vres2 us2 = Some (rows2, us2')"
  then show "map r_rank rows2 = map r_rank rows"
    using render_rows_ranks_scores [OF rows] by blast
qed

theorem display_rank_shared_on_score_ties_witness:
  "rows_ordered
     [\<lparr>userid = 2, numsolved = 0, last_solved = 0, totalscore = 85 + 1 / 2000000000,
       penalty = 600, prob = Map.empty\<rparr>,
      \<lparr>userid = 1, numsolved = 0, last_solved = 0, totalscore = 85, penalty = 1200,
       prob = Map.empty\<rparr>,
      \<lparr>userid = 3, numsolved = 0, last_solved = 0, totalscore = 50, penalty = 0,
       prob = Map.empty\<rparr>]
   \<and> (\<exists>rows us'. render_rows (problems example_globals) [0, 1] 0 0 1
         [\<lparr>userid = 2, numsolved = 0, last_solved = 0, totalscore = 85 + 1 / 2000000000,
           penalty = 600, prob = Map.empty\<rparr>,
          \<lparr>userid = 1, numsolved = 0, last_solved = 0, totalscore = 85, penalty = 1200,
           prob = Map.empty\<rparr>,
          \<lparr>userid = 3, numsolved = 0, last_solved = 0, totalscore = 50, penalty = 0,
           prob = Map.empty\<rparr>]
         (users example_globals) = Some (rows, us')
       \<and> length rows = 3
       \<and> r_rank (rows ! 0) = 1 \<and> r_rank (rows ! 1) = 1 \<and> r_rank (rows ! 2) = 3)"
proof -
  define b where "b = \<lparr>userid = 2, numsolved = 0, last_solved = 0,
      totalscore = 85 + 1 / 2000000000, penalty = 600, prob = Map.empty\<rparr>"
  define a where "a = \<lparr>userid = 1, numsolved = 0, last_solved = 0, totalscore = 85,
      penalty = 1200, prob = Map.empty\<rparr>"
  define c where "c = \<lparr>userid = 3, numsolved = 0, last_solved = 0, totalscore = 50,
      penalty = 0, prob = Map.empty\<rparr>"
  have ord: "rows_ordered [b, a, c]"
    by (simp add: a_def b_def c_def Result_less_def EPS_def)
  obtain rows us' where rows:
    "render_rows (problems example_globals) [0, 1] 0 0 1 [b, a, c] (users example_globals)
       = Some (rows, us')"
    by (simp add: a_def b_def c_def example_defs u_map_index_def EPS_def Let_def)
  have tied: "score_tied a b" "\<not> score_tied c a"
    by (simp_all add: a_def b_def c_def score_tied_def EPS_def)
  note t = display_rank_shared_on_score_ties [OF rows ord]
  from t have len: "length rows = 3" by simp
  from t have r: "\<forall>k<3. r_rank (rows ! k) =
          (if 0 < k \<and> score_tied ([b, a, c] ! k) ([b, a, c] ! (k - 1)) then r_rank (rows ! (k - 1))
           else int k + 1)"
    by simp
  from r have r0: "r_rank (rows ! 0) = 1" by simp
  from r [rule_format, of 1] tied r0 have r1: "r_rank (rows ! 1) = 1" by simp
  from r [rule_format, of 2] tied have r2: "r_rank (rows ! 2) = 3" by simp
  from ord rows len r0 r1 r2 show ?thesis
    unfolding a_def b_def c_def by blast
qed

subsection \<open>Unknown problem ids, and the entries of aggregated results\<close>

text \<open>
  Claim C8 fails on the code. \<^verbatim>\<open>prob_id2idx[s.problemid]\<close> is \<^verbatim>\<open>operator[]\<close>: for a problem
  id that is not in the catalogue it inserts and returns index 0, so the submission is
  attributed to the set of the first problem. With the example catalogue, the submission
  of user 7 for problem id 999 creates the result of user 7 in set \<open>A\<close> and an entry under
  the key 999 in it.
\<close>

theorem unknown_problem_id_not_discarded:
  "prob_id2idx example_globals 999 = None
   \<and> lookup_res example_globals ''A'' 7 = None
   \<and> (\<exists>g' res up.
         process_submission example_globals (Submission_ctor (example_sub 7 999 1100 50)) = Some g'
       \<and> lookup_res g' ''A'' 7 = Some res \<and> userid res = 7
       \<and> prob res 999 = Some up
       \<and> tries up = 1 \<and> failed_tries up = 1 \<and> solved up = PARTIALLY_SOLVED
       \<and> score up = 50 \<and> time up = 100)"
  by (simp add: example_defs eval_defs)

lemma score_problems_valid:
  "score_problems ps vprob res = Some r \<Longrightarrow> \<forall>j\<in>set vprob. j < length ps"
  by (induction vprob arbitrary: res) (auto split: if_splits option.splits)

lemma render_cells_no_unsolved:
  assumes "render_cells ps vprob res = Some cells"
    and "\<And>p up. prob res p = Some up \<Longrightarrow> solved up \<noteq> UNSOLVED"
  shows "\<forall>c\<in>set cells. \<forall>x n. c \<noteq> Cell_unsolved x n"
  using assms(1)
proof (induction vprob arbitrary: cells)
  case Nil
  then show ?case by simp
next
  case (Cons j vprob)
  then obtain cells' where c: "render_cells ps vprob res = Some cells'"
    and cells: "cells = (case prob res (p_id (ps ! j)) of
                      None \<Rightarrow> Cell_dash
                    | Some up \<Rightarrow>
                        if solved up \<noteq> UNSOLVED
                        then Cell_earned (p_points (ps ! j) * (score up / 100))
                        else Cell_unsolved (p_points (ps ! j) * (score up / 100))
                               (failed_tries up)) # cells'"
    by (auto split: if_splits option.splits)
  from Cons.IH [OF c] assms(2) show ?case
    unfolding cells by (auto split: option.splits)
qed

text \<open>
  Claim C10. After a series is aggregated, every entry of every result has at least one
  try and is \<^verbatim>\<open>FULLY_SOLVED\<close> or \<^verbatim>\<open>PARTIALLY_SOLVED\<close>. Hence the cells printed for a scored
  result never come from the branch for an \<^verbatim>\<open>UNSOLVED\<close> entry, and the total score sums
  \<open>points * (score / 100)\<close> over every problem of the set that has an entry.
\<close>

theorem aggregated_entries_tried_and_not_unsolved:
  assumes agg: "aggregate g raws = Some g'"
    and res: "lookup_res g' ps u = Some res"
  shows "(\<forall>p up. prob res p = Some up \<longrightarrow>
            1 \<le> tries up \<and> (solved up = FULLY_SOLVED \<or> solved up = PARTIALLY_SOLVED))
    \<and> (\<forall>pl vprob r cells. score_result pl vprob res = Some r \<and> render_cells pl vprob r = Some cells
          \<longrightarrow> (\<forall>c\<in>set cells. \<forall>x n. c \<noteq> Cell_unsolved x n))
    \<and> (\<forall>pl vprob r. score_result pl vprob res = Some r \<longrightarrow>
          totalscore r =
            (\<Sum>j\<leftarrow>vprob. case prob res (p_id (pl ! j)) of
                             None \<Rightarrow> 0
                           | Some up \<Rightarrow> p_points (pl ! j) * (score up / 100)))"
proof -
  have inv: "res_inv res"
    using res_inv_aggregate [OF agg res] by simp
  then have ent: "\<And>p up. prob res p = Some up \<Longrightarrow> 1 \<le> tries up \<and> solved up \<noteq> UNSOLVED"
    and z: "totalscore res = 0"
    by (auto simp: res_inv_def)
  have 1: "\<forall>p up. prob res p = Some up \<longrightarrow>
            1 \<le> tries up \<and> (solved up = FULLY_SOLVED \<or> solved up = PARTIALLY_SOLVED)"
  proof (intro allI impI)
    fix p up assume "prob res p = Some up"
    from ent [OF this] show "1 \<le> tries up \<and> (solved up = FULLY_SOLVED \<or> solved up = PARTIALLY_SOLVED)"
      by (cases "solved up") simp_all
  qed
  have sc: "prob r = prob res \<and> totalscore r =
            (\<Sum>j\<leftarrow>vprob. case prob res (p_id (pl ! j)) of
                             None \<Rightarrow> 0
                           | Some up \<Rightarrow> p_points (pl ! j) * (score up / 100))"
    if r: "score_result pl vprob res = Some r" for pl vprob r
  proof -
    from r obtain r0 where r0: "score_problems pl vprob res = Some r0"
      and rr: "r = r0\<lparr>penalty := int32 (penalty r0 + last_solved r0)\<rparr>"
      by (auto simp: score_result_def split: option.splits)
    from score_problems_eq [OF score_problems_valid [OF r0], of res] r0
    have "prob r0 = prob res" and "totalscore r0 = totalscore res +
          (\<Sum>(pr, up)\<leftarrow>scored_entries pl vprob res. p_points pr * (score up / 100))"
      by auto
    moreover have "(\<Sum>j\<leftarrow>vprob. case prob res (p_id (pl ! j)) of
                   None \<Rightarrow> 0
                 | Some up \<Rightarrow> if solved up \<noteq> UNSOLVED then p_points (pl ! j) * (score up / 100) else 0)
        = (\<Sum>j\<leftarrow>vprob. case prob res (p_id (pl ! j)) of
                   None \<Rightarrow> 0
                 | Some up \<Rightarrow> p_points (pl ! j) * (score up / 100))"
      by (rule arg_cong [where f = sum_list], rule map_cong) (auto dest: ent split: option.splits)
    ultimately show ?thesis
      using z rr unfolding sum_scored_entries by simp
  qed
  have 2: "\<forall>pl vprob r cells. score_result pl vprob res = Some r \<and> render_cells pl vprob r = Some cells
          \<longrightarrow> (\<forall>c\<in>set cells. \<forall>x n. c \<noteq> Cell_unsolved x n)"
  proof (intro allI impI)
    fix pl vprob r cells
    assume a: "score_result pl vprob res = Some r \<and> render_cells pl vprob r = Some cells"
    then have "prob r = prob res" using sc by blast
    with ent have "\<And>p up. prob r p = Some up \<Longrightarrow> solved up \<noteq> UNSOLVED" by simp
    with a show "\<forall>c\<in>set cells. \<forall>x n. c \<noteq> Cell_unsolved x n"
      using render_cells_no_unsolved by blast
  qed
  from 1 2 sc show ?thesis by blast
qed

theorem aggregated_entries_tried_and_not_unsolved_witness:
  "\<exists>g' res up r cells.
      aggregate example_globals
        [example_sub 7 1 1100 40, example_sub 7 1 1200 70, example_sub 7 2 1500 100] = Some g'
     \<and> lookup_res g' ''A'' 7 = Some res
     \<and> prob res 1 = Some up \<and> 1 \<le> tries up \<and> solved up = PARTIALLY_SOLVED
     \<and> score_result (problems g') [0, 1] res = Some r
     \<and> render_cells (problems g') [0, 1] r = Some cells
     \<and> cells = [Cell_earned 70, Cell_earned 50]
     \<and> Cell_unsolved 70 2 \<notin> set cells
     \<and> totalscore r = 120"
proof -
  let ?raws = "[example_sub 7 1 1100 40, example_sub 7 1 1200 70, example_sub 7 2 1500 100]"
  define up1 where "up1 = \<lparr>solved = PARTIALLY_SOLVED, score = 70, tries = 2, failed_tries = 2,
         time = 200, date = 1200, strdate = []\<rparr>"
  define up2 where "up2 = \<lparr>solved = FULLY_SOLVED, score = 100, tries = 1, failed_tries = 0,
         time = 500, date = 1500, strdate = []\<rparr>"
  obtain g' res where agg: "aggregate example_globals ?raws = Some g'"
    and res: "lookup_res g' ''A'' 7 = Some res"
    and pr: "problems g' = [example_problem, example_problem2]"
    and up: "prob res 1 = Some up1" "prob res 2 = Some up2"
    by (simp add: example_defs eval_defs up1_def up2_def)
  note t = aggregated_entries_tried_and_not_unsolved [OF agg res]
  have valid: "\<forall>j\<in>set [0, 1]. j < length (problems g')"
    by (simp add: pr)
  from score_result_eq [OF valid, of res] obtain r
    where r: "score_result (problems g') [0, 1] res = Some r" and pr_r: "prob r = prob res"
    by blast
  have cells: "render_cells (problems g') [0, 1] r = Some [Cell_earned 70, Cell_earned 50]"
    by (simp add: pr pr_r up up1_def up2_def example_problem_def example_problem2_def)
  from t up(1) have tr: "1 \<le> tries up1" by blast
  have so: "solved up1 = PARTIALLY_SOLVED" by (simp add: up1_def)
  from t cells r have "\<forall>c\<in>set [Cell_earned 70, Cell_earned 50]. \<forall>x n. c \<noteq> Cell_unsolved x n"
    by blast
  then have nu: "Cell_unsolved 70 2 \<notin> set [Cell_earned 70, Cell_earned 50]" by simp
  from t r have "totalscore r =
      (\<Sum>j\<leftarrow>[0, 1]. case prob res (p_id (problems g' ! j)) of
                             None \<Rightarrow> 0
                           | Some up \<Rightarrow> p_points (problems g' ! j) * (score up / 100))"
    by blast
  then have ts: "totalscore r = 120"
    by (simp add: pr up up1_def up2_def example_problem_def example_problem2_def)
  from agg res up(1) tr so r cells nu ts show ?thesis by blast
qed

subsection \<open>Loading the catalogue and running the program\<close>

lemma Problem_ctor_valid:
  "record_valid f \<Longrightarrow> \<exists>pr. Problem_ctor f = Inr pr"
  by (auto simp: record_valid_def Problem_ctor_def)

lemma Problem_ctor_invalid:
  "\<not> record_valid f \<Longrightarrow>
   \<exists>ex. Problem_ctor f = Inl ex \<and> ex_id ex = f_id f \<and> ex_code ex = f_code f \<and> ex_name ex = f_name f"
  by (auto simp: record_valid_def Problem_ctor_def)

lemma load_problems_invalid:
  assumes "\<not> list_all record_valid fs"
  shows "\<exists>d. load_problems n i fs g = Inl d
    \<and> d_id d = f_id (fs ! length (takeWhile record_valid fs))
    \<and> d_ordinal d = i + length (takeWhile record_valid fs) + 1
    \<and> d_count d = n
    \<and> d_code d = f_code (fs ! length (takeWhile record_valid fs))
    \<and> d_name d = f_name (fs ! length (takeWhile record_valid fs))"
  using assms
proof (induction fs arbitrary: i g)
  case Nil
  then show ?case by simp
next
  case (Cons f fs)
  show ?case
  proof (cases "record_valid f")
    case True
    then obtain pr where pr: "Problem_ctor f = Inr pr"
      using Problem_ctor_valid by blast
    from Cons.prems True have "\<not> list_all record_valid fs" by simp
    from Cons.IH [OF this, of "i + 1"] show ?thesis
      using True pr by simp
  next
    case False
    then obtain ex where "Problem_ctor f = Inl ex" "ex_id ex = f_id f" "ex_code ex = f_code f"
      "ex_name ex = f_name f"
      using Problem_ctor_invalid by blast
    with False show ?thesis by simp
  qed
qed

lemma set_cmap_upd: "set (cmap_upd k v m) \<subseteq> insert (k, v) (set m)"
  by (induction m) (auto split: if_splits)

lemma load_problems_valid:
  assumes "list_all record_valid fs" and "catalog_ok g" and "i = length (problems g)"
  shows "\<exists>g'. load_problems n i fs g = Inr g' \<and> catalog_ok g'
    \<and> length (problems g') = length (problems g) + length fs
    \<and> users g' = users g \<and> results g' = results g"
  using assms
proof (induction fs arbitrary: i g)
  case Nil
  then show ?case by simp
next
  case (Cons f fs)
  from Cons.prems(1) have "record_valid f" by simp
  then obtain pr where pr: "Problem_ctor f = Inr pr"
    using Problem_ctor_valid by blast
  let ?v = "(case map_of (problem_sets g) (p_pset pr) of None \<Rightarrow> [] | Some v \<Rightarrow> v) @ [i]"
  let ?g = "g\<lparr>problems := problems g @ [pr],
               prob_id2idx := (prob_id2idx g)(p_id pr \<mapsto> i),
               problem_sets := cmap_upd (p_pset pr) ?v (problem_sets g)\<rparr>"
  have old: "\<forall>j\<in>set (case map_of (problem_sets g) (p_pset pr) of None \<Rightarrow> [] | Some v \<Rightarrow> v).
      j < length (problems g)"
  proof (cases "map_of (problem_sets g) (p_pset pr)")
    case None
    then show ?thesis by simp
  next
    case (Some v)
    then have "(p_pset pr, v) \<in> set (problem_sets g)" by (rule map_of_SomeD)
    with Cons.prems(2) Some show ?thesis by (auto simp: catalog_ok_def)
  qed
  have ok: "catalog_ok ?g"
    unfolding catalog_ok_def
  proof (intro conjI allI impI)
    fix k j assume "prob_id2idx ?g k = Some j"
    then show "j < length (problems ?g)"
      using Cons.prems(2,3) by (auto simp: catalog_ok_def less_Suc_eq split: if_splits)
  next
    fix ps vprob assume "(ps, vprob) \<in> set (problem_sets ?g)"
    then have "(ps, vprob) = (p_pset pr, ?v) \<or> (ps, vprob) \<in> set (problem_sets g)"
      using set_cmap_upd [of "p_pset pr" ?v "problem_sets g"] by auto
    then show "\<forall>j\<in>set vprob. j < length (problems ?g)"
    proof
      assume "(ps, vprob) = (p_pset pr, ?v)"
      then show ?thesis using old Cons.prems(3) by (auto simp: less_Suc_eq)
    next
      assume "(ps, vprob) \<in> set (problem_sets g)"
      then show ?thesis using Cons.prems(2) by (fastforce simp: catalog_ok_def less_Suc_eq)
    qed
  qed
  have "list_all record_valid fs" using Cons.prems(1) by simp
  from Cons.IH [OF this ok, of "i + 1"] Cons.prems(3) pr show ?case
    by auto
qed

lemma load_users_frame:
  "problems (load_users us g) = problems g \<and> prob_id2idx (load_users us g) = prob_id2idx g
   \<and> problem_sets (load_users us g) = problem_sets g"
  by (induction us arbitrary: g) (auto split: option.splits)

lemma catalog_ok_load_users: "catalog_ok (load_users us g) = catalog_ok g"
  by (simp add: catalog_ok_def load_users_frame)

lemma process_submission_total:
  assumes ok: "catalog_ok g" and ne: "problems g \<noteq> []"
  shows "\<exists>g'. process_submission g s = Some g' \<and> catalog_ok g' \<and> problems g' = problems g"
proof (cases "users g (s_userid s) = None")
  case True
  with ok show ?thesis by (simp add: process_submission_unknown)
next
  case False
  have idx: "fst (ii_map_index (prob_id2idx g) (s_problemid s)) < length (problems g)"
    using ok ne by (auto simp: ii_map_index_def catalog_ok_def split: option.splits)
  have ii: "\<forall>k i. snd (ii_map_index (prob_id2idx g) (s_problemid s)) k = Some i
      \<longrightarrow> i < length (problems g)"
    using ok ne by (auto simp: ii_map_index_def catalog_ok_def split: option.splits if_splits)
  from idx ii ok show ?thesis
    unfolding process_submission_known [OF False]
    by (simp add: catalog_ok_def)
qed

lemma process_submissions_total:
  assumes "catalog_ok g" and "problems g \<noteq> []"
  shows "\<exists>g'. process_submissions g raws = Some g' \<and> catalog_ok g' \<and> problems g' = problems g"
  using assms
proof (induction raws arbitrary: g)
  case Nil
  then show ?case by simp
next
  case (Cons raw raws)
  from process_submission_total [OF Cons.prems, of "Submission_ctor raw"]
  obtain g1 where 1: "process_submission g (Submission_ctor raw) = Some g1"
    and ok1: "catalog_ok g1" and p1: "problems g1 = problems g"
    by blast
  from Cons.IH [OF ok1] Cons.prems(2) p1 1 show ?case by simp
qed

lemma aggregate_total:
  assumes "catalog_ok g" and "problems g \<noteq> []"
  shows "\<exists>g'. aggregate g raws = Some g' \<and> catalog_ok g' \<and> problems g' = problems g"
proof -
  have "catalog_ok (g\<lparr>results := Map.empty\<rparr>)" "problems (g\<lparr>results := Map.empty\<rparr>) \<noteq> []"
    using assms by (simp_all add: catalog_ok_def)
  from process_submissions_total [OF this, of raws] show ?thesis
    by (simp add: aggregate_def)
qed

lemma score_all_total:
  assumes "\<forall>j\<in>set vprob. j < length ps"
  shows "\<exists>mres'. score_all ps vprob mres = Some mres'"
proof (induction mres)
  case Nil
  then show ?case by simp
next
  case (Cons ur mres)
  obtain u res where ur: "ur = (u, res)" by (cases ur)
  from score_result_eq [OF assms, of res] obtain r where "score_result ps vprob res = Some r"
    by blast
  with Cons ur show ?case by auto
qed

lemma header_columns_total:
  "\<forall>j\<in>set vprob. j < length ps \<Longrightarrow> \<exists>cols. header_columns ps vprob = Some cols"
  by (induction vprob) auto

lemma render_cells_total:
  "\<forall>j\<in>set vprob. j < length ps \<Longrightarrow> \<exists>cells. render_cells ps vprob res = Some cells"
  by (induction vprob) auto

lemma render_rows_total:
  assumes "\<forall>j\<in>set vprob. j < length ps"
  shows "\<exists>rows us'. render_rows ps vprob i prev rank vres us = Some (rows, us')"
proof (induction vres arbitrary: i prev rank us)
  case Nil
  then show ?case by simp
next
  case (Cons res vres)
  obtain usr us1 where u: "u_map_index us (userid res) = (usr, us1)"
    by (cases "u_map_index us (userid res)")
  obtain cells where c: "render_cells ps vprob res = Some cells"
    using render_cells_total [OF assms] by blast
  from Cons [of "i + 1" "totalscore res"
      "if totalscore res < prev - EPS then int i + 1 else rank" us1]
  show ?case
    using u c by (auto simp: Let_def)
qed

lemma rank_problem_set_total:
  assumes "\<forall>j\<in>set vprob. j < length (problems g)"
  shows "\<exists>t g'. rank_problem_set srt g ps vprob = Some (t, g')
    \<and> problems g' = problems g \<and> prob_id2idx g' = prob_id2idx g
    \<and> problem_sets g' = problem_sets g"
proof -
  let ?mres = "case results g ps of None \<Rightarrow> [] | Some m \<Rightarrow> m"
  obtain mres' where 1: "score_all (problems g) vprob ?mres = Some mres'"
    using score_all_total [OF assms] by blast
  obtain cols where 2: "header_columns (problems g) vprob = Some cols"
    using header_columns_total [OF assms] by blast
  obtain rows us where 3:
    "render_rows (problems g) vprob 0 0 1 (srt (map snd mres')) (users g) = Some (rows, us)"
    using render_rows_total [OF assms] by blast
  from 1 2 3 show ?thesis
    by (simp add: rank_problem_set_def)
qed

lemma rank_problem_sets_total:
  assumes "\<forall>(ps, vprob)\<in>set psets. \<forall>j\<in>set vprob. j < length (problems g)"
  shows "\<exists>ts g'. rank_problem_sets srt g psets = Some (ts, g')
    \<and> problems g' = problems g \<and> prob_id2idx g' = prob_id2idx g
    \<and> problem_sets g' = problem_sets g"
  using assms
proof (induction psets arbitrary: g)
  case Nil
  then show ?case by simp
next
  case (Cons pv psets)
  obtain ps vprob where pv: "pv = (ps, vprob)" by (cases pv)
  from Cons.prems pv have v: "\<forall>j\<in>set vprob. j < length (problems g)" by simp
  from rank_problem_set_total [OF v, of srt ps] obtain t g1
    where 1: "rank_problem_set srt g ps vprob = Some (t, g1)"
      and f: "problems g1 = problems g" "prob_id2idx g1 = prob_id2idx g"
        "problem_sets g1 = problem_sets g"
    by blast
  from Cons.prems have "\<forall>(ps, vprob)\<in>set psets. \<forall>j\<in>set vprob. j < length (problems g1)"
    by (simp add: f)
  from Cons.IH [OF this, of ] 1 f pv show ?case by auto
qed

lemma run_series_total:
  assumes "catalog_ok g" and "problems g \<noteq> []"
  shows "\<exists>ts. run_series srt g series = Some ts"
  using assms
proof (induction series arbitrary: g)
  case Nil
  then show ?case by simp
next
  case (Cons raws series)
  from aggregate_total [OF Cons.prems, of raws] obtain g1
    where 1: "aggregate g raws = Some g1" and ok1: "catalog_ok g1"
      and p1: "problems g1 = problems g"
    by blast
  have "\<forall>(ps, vprob)\<in>set (problem_sets g1). \<forall>j\<in>set vprob. j < length (problems g1)"
    using ok1 by (auto simp: catalog_ok_def)
  from rank_problem_sets_total [OF this, of srt] obtain ts g2
    where 2: "rank_problem_sets srt g1 (problem_sets g1) = Some (ts, g2)"
      and f: "problems g2 = problems g1" "prob_id2idx g2 = prob_id2idx g1"
        "problem_sets g2 = problem_sets g1"
    by blast
  have "catalog_ok g2" "problems g2 \<noteq> []"
    using ok1 f p1 Cons.prems(2) by (simp_all add: catalog_ok_def)
  from Cons.IH [OF this] 1 2 show ?case by auto
qed

lemma catalog_ok_init: "catalog_ok globals_init"
  by (simp add: catalog_ok_def globals_init_def)

text \<open>
  Claim C9. If some problem record has a non-zero category flag or a point value that
  does not parse, \<open>main\<close> returns exit status 1 and its whole output is the diagnostic of
  the first such record: its id, its ordinal \<open>i + 1\<close>, the number of records, its code and
  its name; no ranking is printed. If all records are valid, a run that returns has
  exit status 0 and prints rankings, and with at least one problem the run does return.
\<close>

theorem invalid_problem_record_aborts_run:
  "(\<not> list_all record_valid (in_problems inp) \<longrightarrow>
      (\<exists>d. main srt inp = Some (Judge_error d, 1)
         \<and> d_id d = f_id (in_problems inp ! length (takeWhile record_valid (in_problems inp)))
         \<and> d_ordinal d = length (takeWhile record_valid (in_problems inp)) + 1
         \<and> d_count d = length (in_problems inp)
         \<and> d_code d = f_code (in_problems inp ! length (takeWhile record_valid (in_problems inp)))
         \<and> d_name d = f_name (in_problems inp ! length (takeWhile record_valid (in_problems inp)))))
   \<and> (list_all record_valid (in_problems inp) \<longrightarrow>
        (\<forall>out st. main srt inp = Some (out, st) \<longrightarrow> st = 0 \<and> (\<exists>n ts. out = Rankings n ts)))
   \<and> (list_all record_valid (in_problems inp) \<and> in_problems inp \<noteq> [] \<longrightarrow>
        (\<exists>n ts. main srt inp = Some (Rankings n ts, 0)))"
proof (intro conjI impI)
  assume "\<not> list_all record_valid (in_problems inp)"
  from load_problems_invalid [OF this, of "length (in_problems inp)" 0 globals_init]
  show "\<exists>d. main srt inp = Some (Judge_error d, 1)
         \<and> d_id d = f_id (in_problems inp ! length (takeWhile record_valid (in_problems inp)))
         \<and> d_ordinal d = length (takeWhile record_valid (in_problems inp)) + 1
         \<and> d_count d = length (in_problems inp)
         \<and> d_code d = f_code (in_problems inp ! length (takeWhile record_valid (in_problems inp)))
         \<and> d_name d = f_name (in_problems inp ! length (takeWhile record_valid (in_problems inp)))"
    by (auto simp: main_def)
next
  assume v: "list_all record_valid (in_problems inp)"
  from load_problems_valid [OF v catalog_ok_init, of 0 "length (in_problems inp)"]
  obtain g0 where "load_problems (length (in_problems inp)) 0 (in_problems inp) globals_init = Inr g0"
    by (auto simp: globals_init_def)
  then show "\<forall>out st. main srt inp = Some (out, st) \<longrightarrow> st = 0 \<and> (\<exists>n ts. out = Rankings n ts)"
    by (auto simp: main_def Let_def split: option.splits)
next
  assume "list_all record_valid (in_problems inp) \<and> in_problems inp \<noteq> []"
  then have v: "list_all record_valid (in_problems inp)" and ne: "in_problems inp \<noteq> []"
    by simp_all
  from load_problems_valid [OF v catalog_ok_init, of 0 "length (in_problems inp)"]
  obtain g0 where g0: "load_problems (length (in_problems inp)) 0 (in_problems inp) globals_init = Inr g0"
    and ok: "catalog_ok g0" and len: "length (problems g0) = length (in_problems inp)"
    by (auto simp: globals_init_def)
  let ?g = "load_users (in_users inp) g0"
  have "catalog_ok ?g" using ok by (simp add: catalog_ok_load_users)
  moreover have "problems ?g \<noteq> []" using len ne by (auto simp: load_users_frame)
  ultimately obtain ts where "run_series srt ?g (in_series inp) = Some ts"
    using run_series_total by blast
  with g0 show "\<exists>n ts. main srt inp = Some (Rankings n ts, 0)"
    by (simp add: main_def)
qed

theorem invalid_problem_record_aborts_run_witness:
  "(\<exists>d. main (\<lambda>vres. vres)
           \<lparr>in_problems = [example_fields 1 0 (Some 100), example_fields 2 1 (Some 50),
                           example_fields 3 0 None],
            in_users = [example_user], in_series = [[example_sub 7 1 1100 40]]\<rparr>
         = Some (Judge_error d, 1)
       \<and> d_id d = 2 \<and> d_ordinal d = 2 \<and> d_count d = 3 \<and> d_code d = ''P''
       \<and> d_name d = ''Problem'')
   \<and> (\<exists>n ts. main (\<lambda>vres. vres)
           \<lparr>in_problems = [example_fields 1 0 (Some 100), example_fields 2 0 (Some 50)],
            in_users = [example_user], in_series = [[example_sub 7 1 1100 40]]\<rparr>
         = Some (Rankings n ts, 0))"
proof -
  define bad where "bad = \<lparr>in_problems = [example_fields 1 0 (Some 100),
      example_fields 2 1 (Some 50), example_fields 3 0 None],
    in_users = [example_user], in_series = [[example_sub 7 1 1100 40]]\<rparr>"
  define good where "good = \<lparr>in_problems = [example_fields 1 0 (Some 100),
      example_fields 2 0 (Some 50)],
    in_users = [example_user], in_series = [[example_sub 7 1 1100 40]]\<rparr>"
  have b: "\<not> list_all record_valid (in_problems bad)"
    and k: "length (takeWhile record_valid (in_problems bad)) = 1"
    by (simp_all add: bad_def example_fields_def record_valid_def)
  have g: "list_all record_valid (in_problems good) \<and> in_problems good \<noteq> []"
    by (simp add: good_def example_fields_def record_valid_def)
  note t = invalid_problem_record_aborts_run [of bad "\<lambda>vres. vres", THEN conjunct1, THEN mp, OF b]
  have sel: "in_problems bad ! 1 = example_fields 2 1 (Some 50)" "length (in_problems bad) = 3"
    by (simp_all add: bad_def)
  from t have 1: "\<exists>d. main (\<lambda>vres. vres) bad = Some (Judge_error d, 1)
       \<and> d_id d = 2 \<and> d_ordinal d = 2 \<and> d_count d = 3 \<and> d_code d = ''P''
       \<and> d_name d = ''Problem''"
    unfolding k sel by (auto simp: example_fields_def eval_nat_numeral)
  note t' = invalid_problem_record_aborts_run [of good "\<lambda>vres. vres", THEN conjunct2,
      THEN conjunct2, THEN mp, OF g]
  from t' have 2: "\<exists>n ts. main (\<lambda>vres. vres) good = Some (Rankings n ts, 0)"
    .
  from 1 2 show ?thesis
    unfolding bad_def good_def by (rule conjI)
qed

subsection \<open>The ranking phase of a problem set\<close>

lemma res_inv_elems_process_submission:
  assumes step: "process_submission g s = Some g'"
    and inv: "\<And>ps u res. (u, res) \<in> set (set_results g ps) \<Longrightarrow> res_inv res"
    and mem: "(u, res) \<in> set (set_results g' ps)"
  shows "res_inv res"
proof (cases "users g (s_userid s) = None")
  case True
  with step mem inv show ?thesis by (simp add: process_submission_unknown)
next
  case False
  let ?ps = "p_pset (problem_of g (s_problemid s))"
  let ?r0 = "case lookup_res g ?ps (s_userid s) of None \<Rightarrow> Result_init | Some r \<Rightarrow> r"
  let ?new = "result_step (p_starttime (problem_of g (s_problemid s))) s ?r0"
  have r0: "res_inv ?r0"
  proof (cases "lookup_res g ?ps (s_userid s)")
    case None
    then show ?thesis by (simp add: res_inv_init)
  next
    case (Some r)
    then have "(s_userid s, r) \<in> set (set_results g ?ps)"
      by (auto simp: lookup_res_def set_results_def split: option.splits dest: map_of_SomeD)
    with inv Some show ?thesis by simp
  qed
  have res': "set_results g' ps =
      (if ps = ?ps then cmap_upd (s_userid s) ?new (set_results g ?ps) else set_results g ps)"
    using step False
    by (auto simp: process_submission_known set_results_def split: if_splits)
  show ?thesis
  proof (cases "ps = ?ps")
    case True
    with mem res' have "(u, res) \<in> insert (s_userid s, ?new) (set (set_results g ?ps))"
      using set_cmap_upd [of "s_userid s" ?new "set_results g ?ps"] by auto
    then show ?thesis
      using res_inv_step [OF r0] inv by auto
  next
    case False
    with mem res' inv show ?thesis by simp
  qed
qed

lemma res_inv_elems_process_submissions:
  assumes "process_submissions g raws = Some g'"
    and "\<And>ps u res. (u, res) \<in> set (set_results g ps) \<Longrightarrow> res_inv res"
    and "(u, res) \<in> set (set_results g' ps)"
  shows "res_inv res"
  using assms
proof (induction raws arbitrary: g)
  case Nil
  then show ?case by simp
next
  case (Cons raw raws)
  then obtain g1 where 1: "process_submission g (Submission_ctor raw) = Some g1"
    and 2: "process_submissions g1 raws = Some g'"
    by (auto split: option.splits)
  show ?case
    by (rule Cons.IH [OF 2 _ Cons.prems(3)])
      (rule res_inv_elems_process_submission [OF 1 Cons.prems(2)])
qed

lemma res_inv_elems_aggregate:
  assumes "aggregate g raws = Some g'" and "(u, res) \<in> set (set_results g' ps)"
  shows "res_inv res"
  using assms(1) unfolding aggregate_def
  by (rule res_inv_elems_process_submissions [OF _ _ assms(2)]) (simp add: set_results_def)

lemma score_all_spec:
  assumes valid: "\<forall>j\<in>set vprob. j < length ps"
    and z: "\<And>u res. (u, res) \<in> set mres \<Longrightarrow>
        totalscore res = 0 \<and> penalty res = 0 \<and> last_solved res = 0"
  shows "\<exists>mres'. score_all ps vprob mres = Some mres'
    \<and> list_all2 (\<lambda>ur ur'. fst ur' = fst ur \<and> prob (snd ur') = prob (snd ur)
          \<and> userid (snd ur') = userid (snd ur) \<and> numsolved (snd ur') = numsolved (snd ur)
          \<and> totalscore (snd ur') = spec_totalscore ps vprob (snd ur)
          \<and> last_solved (snd ur') = spec_last_solved ps vprob (snd ur)
          \<and> penalty (snd ur') =
              int32 (spec_failed_tries ps vprob (snd ur) * 600 + spec_last_solved ps vprob (snd ur)))
        mres mres'"
  using z
proof (induction mres)
  case Nil
  then show ?case by simp
next
  case (Cons ur mres)
  obtain u res where ur: "ur = (u, res)" by (cases ur)
  have "totalscore res = 0" "penalty res = 0" "last_solved res = 0"
    using Cons.prems [of u res] ur by simp_all
  from score_result_spec [OF valid this] obtain r
    where r: "score_result ps vprob res = Some r" "prob r = prob res"
      "userid r = userid res" "numsolved r = numsolved res"
      "totalscore r = spec_totalscore ps vprob res"
      "last_solved r = spec_last_solved ps vprob res"
      "penalty r = int32 (spec_failed_tries ps vprob res * 600 + spec_last_solved ps vprob res)"
    by blast
  from Cons.IH Cons.prems obtain mres' where m: "score_all ps vprob mres = Some mres'"
    "list_all2 (\<lambda>ur ur'. fst ur' = fst ur \<and> prob (snd ur') = prob (snd ur)
          \<and> userid (snd ur') = userid (snd ur) \<and> numsolved (snd ur') = numsolved (snd ur)
          \<and> totalscore (snd ur') = spec_totalscore ps vprob (snd ur)
          \<and> last_solved (snd ur') = spec_last_solved ps vprob (snd ur)
          \<and> penalty (snd ur') =
              int32 (spec_failed_tries ps vprob (snd ur) * 600 + spec_last_solved ps vprob (snd ur)))
        mres mres'"
    by auto
  from r m show ?case
    unfolding ur by simp
qed

lemma render_rows_totals:
  "render_rows ps vprob i prev rank vres us = Some (rows, us') \<Longrightarrow>
   map r_totalscore rows = map totalscore vres"
proof (induction vres arbitrary: i prev rank rows us)
  case Nil
  then show ?case by simp
next
  case (Cons res vres)
  from Cons.prems show ?case
    by (auto simp: Let_def split: prod.splits option.splits dest: Cons.IH)
qed

lemma rank_problem_set_eq:
  assumes valid: "\<forall>j\<in>set vprob. j < length (problems g)"
    and sc: "score_all (problems g) vprob (set_results g ps) = Some mres'"
  shows "\<exists>t g'. rank_problem_set srt g ps vprob = Some (t, g')
    \<and> results g' ps = Some mres'
    \<and> render_rows (problems g) vprob 0 0 1 (srt (map snd mres')) (users g)
        = Some (t_rows t, users g')"
proof -
  obtain cols where 2: "header_columns (problems g) vprob = Some cols"
    using header_columns_total [OF valid] by blast
  obtain rows us where 3:
    "render_rows (problems g) vprob 0 0 1 (srt (map snd mres')) (users g) = Some (rows, us)"
    using render_rows_total [OF valid] by blast
  from sc 2 3 show ?thesis
    by (simp add: rank_problem_set_def set_results_def)
qed

text \<open>
  Claim C4. The ranking phase of a problem set, run on the results of an aggregated
  series with the valid problem indices \<open>vprob\<close> of the set: the loop over the results of
  the set scores every one of them, in user-id order, and leaves in its \<^verbatim>\<open>totalscore\<close> the
  sum over \<open>vprob\<close> of \<open>points * (score / 100)\<close> for the problems whose entry exists and is
  not \<^verbatim>\<open>UNSOLVED\<close>, a problem without an entry contributing 0. The scored results are
  stored back in \<^verbatim>\<open>results\<close>, they are what is sorted, and the total printed in each row
  of the table is the \<^verbatim>\<open>totalscore\<close> of the sorted result at that position.
\<close>

theorem ranking_phase_totalscore:
  assumes agg: "aggregate g raws = Some g'"
    and valid: "\<forall>j\<in>set vprob. j < length (problems g')"
  shows "\<exists>mres' t g''.
      score_all (problems g') vprob (set_results g' ps) = Some mres'
    \<and> rank_problem_set srt g' ps vprob = Some (t, g'')
    \<and> results g'' ps = Some mres'
    \<and> list_all2 (\<lambda>ur ur'. fst ur' = fst ur \<and> prob (snd ur') = prob (snd ur)
          \<and> totalscore (snd ur') = spec_totalscore (problems g') vprob (snd ur))
        (set_results g' ps) mres'
    \<and> render_rows (problems g') vprob 0 0 1 (srt (map snd mres')) (users g')
        = Some (t_rows t, users g'')
    \<and> map r_totalscore (t_rows t) = map totalscore (srt (map snd mres'))"
proof -
  have z: "totalscore res = 0 \<and> penalty res = 0 \<and> last_solved res = 0"
    if "(u, res) \<in> set (set_results g' ps)" for u res
    using res_inv_elems_aggregate [OF agg that] by (simp add: res_inv_def)
  have "\<exists>mres'. score_all (problems g') vprob (set_results g' ps) = Some mres'
      \<and> list_all2 (\<lambda>ur ur'. fst ur' = fst ur \<and> prob (snd ur') = prob (snd ur)
          \<and> userid (snd ur') = userid (snd ur) \<and> numsolved (snd ur') = numsolved (snd ur)
          \<and> totalscore (snd ur') = spec_totalscore (problems g') vprob (snd ur)
          \<and> last_solved (snd ur') = spec_last_solved (problems g') vprob (snd ur)
          \<and> penalty (snd ur') =
              int32 (spec_failed_tries (problems g') vprob (snd ur) * 600
                     + spec_last_solved (problems g') vprob (snd ur)))
        (set_results g' ps) mres'"
    by (rule score_all_spec [OF valid]) (erule z)
  then obtain mres'
    where sc: "score_all (problems g') vprob (set_results g' ps) = Some mres'"
      and rel: "list_all2 (\<lambda>ur ur'. fst ur' = fst ur \<and> prob (snd ur') = prob (snd ur)
          \<and> userid (snd ur') = userid (snd ur) \<and> numsolved (snd ur') = numsolved (snd ur)
          \<and> totalscore (snd ur') = spec_totalscore (problems g') vprob (snd ur)
          \<and> last_solved (snd ur') = spec_last_solved (problems g') vprob (snd ur)
          \<and> penalty (snd ur') =
              int32 (spec_failed_tries (problems g') vprob (snd ur) * 600
                     + spec_last_solved (problems g') vprob (snd ur)))
        (set_results g' ps) mres'"
    by (elim exE conjE)
  from rel have rel': "list_all2 (\<lambda>ur ur'. fst ur' = fst ur \<and> prob (snd ur') = prob (snd ur)
          \<and> totalscore (snd ur') = spec_totalscore (problems g') vprob (snd ur))
        (set_results g' ps) mres'"
    by (rule list_all2_mono) simp
  from rank_problem_set_eq [OF valid sc, of srt] obtain t g''
    where rk: "rank_problem_set srt g' ps vprob = Some (t, g'')"
      and rs: "results g'' ps = Some mres'"
      and rr: "render_rows (problems g') vprob 0 0 1 (srt (map snd mres')) (users g')
        = Some (t_rows t, users g'')"
    by blast
  from sc rk rs rel' rr render_rows_totals [OF rr] show ?thesis by blast
qed

theorem ranking_phase_totalscore_witness:
  "\<exists>g' t g''.
      aggregate example_globals2
        [example_sub 7 1 1100 40, example_sub 7 1 1200 70, example_sub 8 2 1500 100] = Some g'
    \<and> rank_problem_set (\<lambda>vres. vres) g' ''A'' [0, 1] = Some (t, g'')
    \<and> map (\<lambda>ur. (fst ur, totalscore (snd ur))) (set_results g'' ''A'') = [(7, 70), (8, 50)]
    \<and> map r_totalscore (t_rows t) = [70, 50]"
proof -
  let ?raws = "[example_sub 7 1 1100 40, example_sub 7 1 1200 70, example_sub 8 2 1500 100]"
  define up1 where "up1 = \<lparr>solved = PARTIALLY_SOLVED, score = 70, tries = 2, failed_tries = 2,
         time = 200, date = 1200, strdate = []\<rparr>"
  define up2 where "up2 = \<lparr>solved = FULLY_SOLVED, score = 100, tries = 1, failed_tries = 0,
         time = 500, date = 1500, strdate = []\<rparr>"
  obtain g' res7 res8 where agg: "aggregate example_globals2 ?raws = Some g'"
    and sr: "set_results g' ''A'' = [(7, res7), (8, res8)]"
    and pr: "problems g' = [example_problem, example_problem2]"
    and up: "prob res7 1 = Some up1" "prob res7 2 = None"
      "prob res8 1 = None" "prob res8 2 = Some up2"
    by (simp add: example_globals2_def example_user8_def example_defs eval_defs set_results_def
        up1_def up2_def)
  have valid: "\<forall>j\<in>set [0, 1]. j < length (problems g')"
    by (simp add: pr)
  have ts: "spec_totalscore (problems g') [0, 1] res7 = 70"
    "spec_totalscore (problems g') [0, 1] res8 = 50"
    by (simp_all add: spec_totalscore_def pr up up1_def up2_def example_problem_def
        example_problem2_def)
  from ranking_phase_totalscore [OF agg valid, of "''A''" "\<lambda>vres. vres"]
  obtain mres' t g'' where rk: "rank_problem_set (\<lambda>vres. vres) g' ''A'' [0, 1] = Some (t, g'')"
    and rs: "results g'' ''A'' = Some mres'"
    and rel: "list_all2 (\<lambda>ur ur'. fst ur' = fst ur \<and> prob (snd ur') = prob (snd ur)
          \<and> totalscore (snd ur') = spec_totalscore (problems g') [0, 1] (snd ur))
        [(7, res7), (8, res8)] mres'"
    and rows: "map r_totalscore (t_rows t) = map totalscore (map snd mres')"
    unfolding sr by blast
  from rel ts have m: "map (\<lambda>ur. (fst ur, totalscore (snd ur))) mres' = [(7, 70), (8, 50)]"
    by (auto simp: list_all2_Cons1)
  then have "map totalscore (map snd mres') = [70, 50]"
    by (auto simp: map_eq_Cons_conv)
  with rows have rows': "map r_totalscore (t_rows t) = [70, 50]" by simp
  have "set_results g'' ''A'' = mres'"
    using rs by (simp add: set_results_def)
  with m have m': "map (\<lambda>ur. (fst ur, totalscore (snd ur))) (set_results g'' ''A'')
      = [(7, 70), (8, 50)]"
    by simp
  show ?thesis
    by (intro exI conjI) (rule agg, rule rk, rule m', rule rows')
qed

text \<open>
  Claim C5, as stated, fails where the sum leaves the range of \<^verbatim>\<open>int\<close>. User 7 submits
  twice, with score 40 and timestamp 2147483647, for problem 1 (start time 1000): the
  entry has 2 failed tries and time offset 2147482647, so \<^verbatim>\<open>last_solved\<close> is 2147482647
  and \<open>2 * 600 + 2147482647\<close> is 2147483847; the 32-bit field \<^verbatim>\<open>penalty\<close> holds -2147483449.
\<close>

theorem penalty_wraps_around:
  "Option.bind
     (aggregate example_globals
        [example_sub 7 1 2147483647 40, example_sub 7 1 2147483647 40])
     (\<lambda>g'. Option.bind (rank_problem_set (\<lambda>vres. vres) g' ''A'' [0, 1])
        (\<lambda>tg. Some (map (\<lambda>ur. (fst ur, map_option failed_tries (prob (snd ur) 1),
                                  map_option failed_tries (prob (snd ur) 2),
                                  last_solved (snd ur), penalty (snd ur)))
                        (set_results (snd tg) ''A''))))
   = Some [(7, Some 2, None, 2147482647, - 2147483449)]
   \<and> (- 2147483449 :: int) \<noteq> 2 * 600 + 2147482647"
  by (simp add: example_defs eval_defs set_results_def rank_problem_set_def score_result_def
      u_map_index_def int32_def INCORRECT_SUBMISSION_PENALTY_def)

text \<open>
  Claim C5, amended. The ranking phase of a problem set leaves in every result of the
  set, as \<^verbatim>\<open>last_solved\<close>, the maximum of 0 and the time offsets of the entries of the
  set's problems that exist and are not \<^verbatim>\<open>UNSOLVED\<close>, and as \<^verbatim>\<open>penalty\<close> the failed tries
  summed over those entries times 600, plus \<^verbatim>\<open>last_solved\<close> (added once), as a 32-bit
  \<^verbatim>\<open>int\<close> holds it: that sum itself when it lies between \<open>-2\<^sup>3\<^sup>1\<close> and \<open>2\<^sup>3\<^sup>1 - 1\<close>, and
  that sum wrapped around modulo \<open>2\<^sup>3\<^sup>2\<close> otherwise.
\<close>

theorem ranking_phase_penalty:
  assumes agg: "aggregate g raws = Some g'"
    and valid: "\<forall>j\<in>set vprob. j < length (problems g')"
  shows "\<exists>mres' t g''.
      score_all (problems g') vprob (set_results g' ps) = Some mres'
    \<and> rank_problem_set srt g' ps vprob = Some (t, g'')
    \<and> results g'' ps = Some mres'
    \<and> render_rows (problems g') vprob 0 0 1 (srt (map snd mres')) (users g')
        = Some (t_rows t, users g'')
    \<and> list_all2 (\<lambda>ur ur'. fst ur' = fst ur
          \<and> last_solved (snd ur') = spec_last_solved (problems g') vprob (snd ur)
          \<and> penalty (snd ur') =
              int32 (spec_failed_tries (problems g') vprob (snd ur) * 600
                     + spec_last_solved (problems g') vprob (snd ur))
          \<and> (- 2147483648 \<le> spec_failed_tries (problems g') vprob (snd ur) * 600
                     + spec_last_solved (problems g') vprob (snd ur)
             \<and> spec_failed_tries (problems g') vprob (snd ur) * 600
                     + spec_last_solved (problems g') vprob (snd ur) \<le> 2147483647
             \<longrightarrow> penalty (snd ur') =
                   spec_failed_tries (problems g') vprob (snd ur) * 600
                     + spec_last_solved (problems g') vprob (snd ur)))
        (set_results g' ps) mres'"
proof -
  have z: "totalscore res = 0 \<and> penalty res = 0 \<and> last_solved res = 0"
    if "(u, res) \<in> set (set_results g' ps)" for u res
    using res_inv_elems_aggregate [OF agg that] by (simp add: res_inv_def)
  have "\<exists>mres'. score_all (problems g') vprob (set_results g' ps) = Some mres'
      \<and> list_all2 (\<lambda>ur ur'. fst ur' = fst ur \<and> prob (snd ur') = prob (snd ur)
          \<and> userid (snd ur') = userid (snd ur) \<and> numsolved (snd ur') = numsolved (snd ur)
          \<and> totalscore (snd ur') = spec_totalscore (problems g') vprob (snd ur)
          \<and> last_solved (snd ur') = spec_last_solved (problems g') vprob (snd ur)
          \<and> penalty (snd ur') =
              int32 (spec_failed_tries (problems g') vprob (snd ur) * 600
                     + spec_last_solved (problems g') vprob (snd ur)))
        (set_results g' ps) mres'"
    by (rule score_all_spec [OF valid]) (erule z)
  then obtain mres'
    where sc: "score_all (problems g') vprob (set_results g' ps) = Some mres'"
      and rel: "list_all2 (\<lambda>ur ur'. fst ur' = fst ur \<and> prob (snd ur') = prob (snd ur)
          \<and> userid (snd ur') = userid (snd ur) \<and> numsolved (snd ur') = numsolved (snd ur)
          \<and> totalscore (snd ur') = spec_totalscore (problems g') vprob (snd ur)
          \<and> last_solved (snd ur') = spec_last_solved (problems g') vprob (snd ur)
          \<and> penalty (snd ur') =
              int32 (spec_failed_tries (problems g') vprob (snd ur) * 600
                     + spec_last_solved (problems g') vprob (snd ur)))
        (set_results g' ps) mres'"
    by (elim exE conjE)
  from rel have rel': "list_all2 (\<lambda>ur ur'. fst ur' = fst ur
          \<and> last_solved (snd ur') = spec_last_solved (problems g') vprob (snd ur)
          \<and> penalty (snd ur') =
              int32 (spec_failed_tries (problems g') vprob (snd ur) * 600
                     + spec_last_solved (problems g') vprob (snd ur))
          \<and> (- 2147483648 \<le> spec_failed_tries (problems g') vprob (snd ur) * 600
                     + spec_last_solved (problems g') vprob (snd ur)
             \<and> spec_failed_tries (problems g') vprob (snd ur) * 600
                     + spec_last_solved (problems g') vprob (snd ur) \<le> 2147483647
             \<longrightarrow> penalty (snd ur') =
                   spec_failed_tries (problems g') vprob (snd ur) * 600
                     + spec_last_solved (problems g') vprob (snd ur)))
        (set_results g' ps) mres'"
    by (rule list_all2_mono) (simp add: int32_id)
  from rank_problem_set_eq [OF valid sc, of srt] obtain t g''
    where rk: "rank_problem_set srt g' ps vprob = Some (t, g'')"
      and rs: "results g'' ps = Some mres'"
      and rr: "render_rows (problems g') vprob 0 0 1 (srt (map snd mres')) (users g')
        = Some (t_rows t, users g'')"
    by blast
  show ?thesis
    by (intro exI conjI) (rule sc, rule rk, rule rs, rule rr, rule rel')
qed

theorem ranking_phase_penalty_witness:
  "\<exists>g' t g''.
      aggregate example_globals2
        [example_sub 7 1 1100 40, example_sub 7 1 1200 70, example_sub 8 2 1500 100] = Some g'
    \<and> rank_problem_set (\<lambda>vres. vres) g' ''A'' [0, 1] = Some (t, g'')
    \<and> map (\<lambda>ur. (fst ur, last_solved (snd ur), penalty (snd ur))) (set_results g'' ''A'')
        = [(7, 200, 1400), (8, 500, 500)]"
proof -
  let ?raws = "[example_sub 7 1 1100 40, example_sub 7 1 1200 70, example_sub 8 2 1500 100]"
  define up1 where "up1 = \<lparr>solved = PARTIALLY_SOLVED, score = 70, tries = 2, failed_tries = 2,
         time = 200, date = 1200, strdate = []\<rparr>"
  define up2 where "up2 = \<lparr>solved = FULLY_SOLVED, score = 100, tries = 1, failed_tries = 0,
         time = 500, date = 1500, strdate = []\<rparr>"
  obtain g' res7 res8 where agg: "aggregate example_globals2 ?raws = Some g'"
    and sr: "set_results g' ''A'' = [(7, res7), (8, res8)]"
    and pr: "problems g' = [example_problem, example_problem2]"
    and up: "prob res7 1 = Some up1" "prob res7 2 = None"
      "prob res8 1 = None" "prob res8 2 = Some up2"
    by (simp add: example_globals2_def example_user8_def example_defs eval_defs set_results_def
        up1_def up2_def)
  have valid: "\<forall>j\<in>set [0, 1]. j < length (problems g')"
    by (simp add: pr)
  have sp: "spec_failed_tries (problems g') [0, 1] res7 = 2"
    "spec_last_solved (problems g') [0, 1] res7 = 200"
    "spec_failed_tries (problems g') [0, 1] res8 = 0"
    "spec_last_solved (problems g') [0, 1] res8 = 500"
    by (simp_all add: spec_failed_tries_def spec_last_solved_def scored_entries_def pr up
        up1_def up2_def example_problem_def example_problem2_def)
  from ranking_phase_penalty [OF agg valid, of "''A''" "\<lambda>vres. vres"]
  obtain mres' t g'' where rk: "rank_problem_set (\<lambda>vres. vres) g' ''A'' [0, 1] = Some (t, g'')"
    and rs: "results g'' ''A'' = Some mres'"
    and rel: "list_all2 (\<lambda>ur ur'. fst ur' = fst ur
          \<and> last_solved (snd ur') = spec_last_solved (problems g') [0, 1] (snd ur)
          \<and> penalty (snd ur') =
              int32 (spec_failed_tries (problems g') [0, 1] (snd ur) * 600
                     + spec_last_solved (problems g') [0, 1] (snd ur))
          \<and> (- 2147483648 \<le> spec_failed_tries (problems g') [0, 1] (snd ur) * 600
                     + spec_last_solved (problems g') [0, 1] (snd ur)
             \<and> spec_failed_tries (problems g') [0, 1] (snd ur) * 600
                     + spec_last_solved (problems g') [0, 1] (snd ur) \<le> 2147483647
             \<longrightarrow> penalty (snd ur') =
                   spec_failed_tries (problems g') [0, 1] (snd ur) * 600
                     + spec_last_solved (problems g') [0, 1] (snd ur)))
        [(7, res7), (8, res8)] mres'"
    unfolding sr by (elim exE conjE)
  from rel sp have m: "map (\<lambda>ur. (fst ur, last_solved (snd ur), penalty (snd ur))) mres'
      = [(7, 200, 1400), (8, 500, 500)]"
    by (auto simp: list_all2_Cons1)
  have "set_results g'' ''A'' = mres'"
    using rs by (simp add: set_results_def)
  with m have m': "map (\<lambda>ur. (fst ur, last_solved (snd ur), penalty (snd ur)))
      (set_results g'' ''A'') = [(7, 200, 1400), (8, 500, 500)]"
    by simp
  show ?thesis
    by (intro exI conjI) (rule agg, rule rk, rule m')
qed

end
